theory Spec2Isabelle
  imports Complex_Main "HOL-Library.Sublist"
begin

section \<open>Exceptions and results\<close>

text \<open>
  The module \<^verbatim>\<open>qiskit_metal/analyses/quantization/lumped_capacitive.py\<close> is embedded
  function by function. A Python exception is a value of \<open>error\<close>; a function that can
  raise returns \<open>error + 'a\<close>, with \<open>Inl\<close> for the exception.
\<close>

datatype error =
    ValueError string
  | IndexError
  | ZeroDivisionError
  | AssertionError string
  | UnboundLocalError string
  | FileNotFoundError
  | LibraryError string
  | NonFinite
  | TypeError

definition and_then :: "error + 'a \<Rightarrow> ('a \<Rightarrow> error + 'b) \<Rightarrow> error + 'b" where
  "and_then m f = (case m of Inl e \<Rightarrow> Inl e | Inr x \<Rightarrow> f x)"

fun traverse :: "('a \<Rightarrow> error + 'b) \<Rightarrow> 'a list \<Rightarrow> error + 'b list" where
  "traverse f [] = Inr []"
| "traverse f (x # xs) =
     (case f x of
        Inl e \<Rightarrow> Inl e
      | Inr y \<Rightarrow> (case traverse f xs of Inl e \<Rightarrow> Inl e | Inr ys \<Rightarrow> Inr (y # ys)))"

section \<open>NumPy index arrays\<close>

text \<open>
  An index \<open>i\<close> into an axis of length \<open>n\<close> is valid when \<open>-n \<le> i < n\<close>; a negative
  index counts from the end. Anything else raises \<open>IndexError\<close>.
\<close>

definition wrap_index :: "nat \<Rightarrow> int \<Rightarrow> nat" where
  "wrap_index n i = (if i < 0 then nat (i + int n) else nat i)"

definition valid_index :: "nat \<Rightarrow> int \<Rightarrow> bool" where
  "valid_index n i \<longleftrightarrow> - int n \<le> i \<and> i < int n"

definition getitem :: "'a list \<Rightarrow> int \<Rightarrow> error + 'a" where
  "getitem xs i =
     (if valid_index (length xs) i then Inr (xs ! wrap_index (length xs) i)
      else Inl IndexError)"

text \<open>\<^verbatim>\<open>np.arange(0, len_)\<close>\<close>

definition np_arange :: "nat \<Rightarrow> int list" where
  "np_arange n = map int [0..<n]"

text \<open>
  \<^verbatim>\<open>np.delete(arr, obj)\<close> for a list \<open>obj\<close> of integers: NumPy builds a mask
  \<^verbatim>\<open>keep = ones(N, bool); keep[obj,] = False\<close> and returns \<^verbatim>\<open>arr[keep]\<close>. An index out of
  range raises; a repeated index is removed once.
\<close>

definition np_delete :: "'a list \<Rightarrow> int list \<Rightarrow> error + 'a list" where
  "np_delete arr obj =
     (let N = length arr in
      if list_all (valid_index N) obj
      then Inr (map (\<lambda>k. arr ! k)
                 (filter (\<lambda>k. k \<notin> set (map (wrap_index N) obj)) [0..<N]))
      else Inl IndexError)"

text \<open>
  \<^verbatim>\<open>np.insert(arr, obj, values)\<close> for a scalar \<open>obj\<close>: the position must satisfy
  \<open>-N \<le> obj \<le> N\<close>, a negative one has \<open>N\<close> added, and the values go in as one block:
  \<^verbatim>\<open>new[:index] = arr[:index]; new[index:index+numnew] = values; new[index+numnew:] = arr[index:]\<close>.
\<close>

definition np_insert :: "'a list \<Rightarrow> int \<Rightarrow> 'a list \<Rightarrow> error + 'a list" where
  "np_insert arr obj vals =
     (let N = int (length arr) in
      if obj < - N \<or> obj > N then Inl IndexError
      else let index = nat (if obj < 0 then obj + N else obj)
           in Inr (take index arr @ vals @ drop index arr))"

text \<open>
  \<^verbatim>\<open>
  def move_index_to(i_from, i_to, len_):
      idxs = np.arange(0, len_)
      idxs = np.delete(idxs, i_from)
      return np.insert(idxs, i_to, i_from)
  \<close>
\<close>

definition move_index_to :: "int list \<Rightarrow> int \<Rightarrow> nat \<Rightarrow> error + int list" where
  "move_index_to i_from i_to len =
     and_then (np_delete (np_arange len) i_from) (\<lambda>idxs. np_insert idxs i_to i_from)"

section \<open>Labelled matrices\<close>

text \<open>
  A \<^verbatim>\<open>pandas.DataFrame\<close> as the reorderer uses it: the 2-D block of values (a list of
  rows), the column labels and the row labels.
\<close>

record ('a, 'l) DataFrame =
  df_values :: "'a list list"
  df_columns :: "'l list"
  df_index :: "'l list"

text \<open>Integer-array indexing \<^verbatim>\<open>xs[idx]\<close> of a 1-D array or a \<^verbatim>\<open>pandas.Index\<close>.\<close>

definition take_idx :: "'a list \<Rightarrow> int list \<Rightarrow> error + 'a list" where
  "take_idx xs idx = traverse (getitem xs) idx"

text \<open>\<^verbatim>\<open>arr[np.ix_(rows, cols)]\<close>: the sub-matrix of the chosen rows and columns.\<close>

definition take_ix :: "'a list list \<Rightarrow> int list \<Rightarrow> int list \<Rightarrow> error + 'a list list" where
  "take_ix arr rows cols =
     traverse (\<lambda>i. and_then (getitem arr i) (\<lambda>row. take_idx row cols)) rows"

text \<open>
  \<^verbatim>\<open>
  def df_reorder_matrix_basis(df, i_from, i_to):
      arr = df.values
      idx = move_index_to(i_from, i_to, len(arr))
      arr = arr[np.ix_(idx, idx)]
      return pd.DataFrame(arr, columns=df.columns[idx], index=df.index[idx])
  \<close>
\<close>

definition df_reorder_matrix_basis ::
  "('a, 'l) DataFrame \<Rightarrow> int list \<Rightarrow> int \<Rightarrow> error + ('a, 'l) DataFrame" where
  "df_reorder_matrix_basis df i_from i_to =
     (let arr = df_values df in
      and_then (move_index_to i_from i_to (length arr)) (\<lambda>idx.
      and_then (take_ix arr idx idx) (\<lambda>arr'.
      and_then (take_idx (df_columns df) idx) (\<lambda>cols.
      and_then (take_idx (df_index df) idx) (\<lambda>rows.
      Inr \<lparr>df_values = arr', df_columns = cols, df_index = rows\<rparr>)))))"

subsection \<open>Vocabulary of the round-trip law\<close>

text \<open>
  A frame is square of side \<open>n\<close> when its block has \<open>n\<close> rows of \<open>n\<close> entries and
  \<open>n\<close> labels on each axis. \<open>positions n idx\<close> are the positions an index array
  selects, negative entries counted from the end. \<open>undoes n idx idx'\<close> says that
  selecting by \<open>idx\<close> and then by \<open>idx'\<close> selects position \<open>k\<close> at place \<open>k\<close>:
  \<open>idx'\<close> is the inverse permutation of \<open>idx\<close>. \<open>inverse_index n idx\<close> computes it.
\<close>

definition square_frame :: "('a, 'l) DataFrame \<Rightarrow> nat \<Rightarrow> bool" where
  "square_frame df n \<longleftrightarrow>
     length (df_values df) = n \<and> list_all (\<lambda>row. length row = n) (df_values df) \<and>
     length (df_columns df) = n \<and> length (df_index df) = n"

definition positions :: "nat \<Rightarrow> int list \<Rightarrow> nat list" where
  "positions n idx = map (wrap_index n) idx"

definition undoes :: "nat \<Rightarrow> int list \<Rightarrow> int list \<Rightarrow> bool" where
  "undoes n idx idx' \<longleftrightarrow> map (\<lambda>j. positions n idx ! j) (positions n idx') = [0..<n]"

definition inverse_index :: "nat \<Rightarrow> int list \<Rightarrow> int list" where
  "inverse_index n idx =
     map (\<lambda>k. int (length (takeWhile (\<lambda>p. p \<noteq> k) (positions n idx)))) [0..<n]"

section \<open>The reorderer over a store of objects\<close>

text \<open>
  To speak about mutation, Python objects live in a store: a list of objects, an
  object's reference being its position. A \<^verbatim>\<open>DataFrame\<close> object holds references to
  its block of values and to its two label objects, so that two frames may share them.
  Creating an object appends it; an assignment into an existing array or frame would
  be a list update at its reference.
\<close>

datatype ('a, 'l) pyobj =
    NdArray2 "'a list list"
  | NdArray1 "int list"
  | PdIndex "'l list"
  | PdFrame nat nat nat

type_synonym ('a, 'l) store = "('a, 'l) pyobj list"

definition new_object :: "('a, 'l) store \<Rightarrow> ('a, 'l) pyobj \<Rightarrow> nat \<times> ('a, 'l) store" where
  "new_object s x = (length s, s @ [x])"

text \<open>Reading through a reference; the reads below also check the object's kind.\<close>

definition deref :: "('a, 'l) store \<Rightarrow> nat \<Rightarrow> error + ('a, 'l) pyobj" where
  "deref s r = (if r < length s then Inr (s ! r) else Inl TypeError)"

definition as_frame :: "('a, 'l) store \<Rightarrow> nat \<Rightarrow> error + nat \<times> nat \<times> nat" where
  "as_frame s r =
     and_then (deref s r) (\<lambda>x. case x of PdFrame v c i \<Rightarrow> Inr (v, c, i) | _ \<Rightarrow> Inl TypeError)"

definition as_block :: "('a, 'l) store \<Rightarrow> nat \<Rightarrow> error + 'a list list" where
  "as_block s r =
     and_then (deref s r) (\<lambda>x. case x of NdArray2 arr \<Rightarrow> Inr arr | _ \<Rightarrow> Inl TypeError)"

definition as_int_array :: "('a, 'l) store \<Rightarrow> nat \<Rightarrow> error + int list" where
  "as_int_array s r =
     and_then (deref s r) (\<lambda>x. case x of NdArray1 xs \<Rightarrow> Inr xs | _ \<Rightarrow> Inl TypeError)"

definition as_labels :: "('a, 'l) store \<Rightarrow> nat \<Rightarrow> error + 'l list" where
  "as_labels s r =
     and_then (deref s r) (\<lambda>x. case x of PdIndex ls \<Rightarrow> Inr ls | _ \<Rightarrow> Inl TypeError)"

text \<open>
  \<open>move_index_to\<close> over the store: \<^verbatim>\<open>np.arange\<close>, \<^verbatim>\<open>np.delete\<close> and \<^verbatim>\<open>np.insert\<close> each
  return a new array; the local name \<^verbatim>\<open>idxs\<close> is rebound to it.
\<close>

definition move_index_to_st ::
  "('a, 'l) store \<Rightarrow> int list \<Rightarrow> int \<Rightarrow> nat \<Rightarrow> error + nat \<times> ('a, 'l) store" where
  "move_index_to_st s i_from i_to len =
     (let (idxs, s1) = new_object s (NdArray1 (np_arange len)) in
      and_then (as_int_array s1 idxs) (\<lambda>xs.
      and_then (np_delete xs i_from) (\<lambda>ys.
      let (idxs, s2) = new_object s1 (NdArray1 ys) in
      and_then (as_int_array s2 idxs) (\<lambda>ys.
      and_then (np_insert ys i_to i_from) (\<lambda>zs.
      Inr (new_object s2 (NdArray1 zs)))))))"

text \<open>
  \<open>df_reorder_matrix_basis\<close> over the store. \<^verbatim>\<open>df.values\<close> is the frame's own block (no
  copy is assumed), the integer-array indexing \<^verbatim>\<open>arr[np.ix_(idx, idx)]\<close>, \<^verbatim>\<open>df.columns[idx]\<close> and
  \<^verbatim>\<open>df.index[idx]\<close> each build a new object, and \<^verbatim>\<open>pd.DataFrame(...)\<close> builds a new frame
  around them without copying.
\<close>

definition df_reorder_matrix_basis_st ::
  "('a, 'l) store \<Rightarrow> nat \<Rightarrow> int list \<Rightarrow> int \<Rightarrow> error + nat \<times> ('a, 'l) store" where
  "df_reorder_matrix_basis_st s df i_from i_to =
     and_then (as_frame s df) (\<lambda>(v, c, i).
     and_then (as_block s v) (\<lambda>arr.
     and_then (move_index_to_st s i_from i_to (length arr)) (\<lambda>(idx, s1).
     and_then (as_int_array s1 idx) (\<lambda>idxs.
     and_then (as_block s1 v) (\<lambda>arr.
     and_then (take_ix arr idxs idxs) (\<lambda>arr'.
     let (v', s2) = new_object s1 (NdArray2 arr') in
     and_then (as_labels s2 c) (\<lambda>cols.
     and_then (take_idx cols idxs) (\<lambda>cols'.
     let (c', s3) = new_object s2 (PdIndex cols') in
     and_then (as_labels s3 i) (\<lambda>rows.
     and_then (take_idx rows idxs) (\<lambda>rows'.
     let (i', s4) = new_object s3 (PdIndex rows') in
     Inr (new_object s4 (PdFrame v' c' i'))))))))))))"

text \<open>The contents of the frame at a reference, as a value.\<close>

definition frame_at :: "('a, 'l) store \<Rightarrow> nat \<Rightarrow> error + ('a, 'l) DataFrame" where
  "frame_at s df =
     and_then (as_frame s df) (\<lambda>(v, c, i).
     and_then (as_block s v) (\<lambda>arr.
     and_then (as_labels s c) (\<lambda>cols.
     and_then (as_labels s i) (\<lambda>rows.
     Inr \<lparr>df_values = arr, df_columns = cols, df_index = rows\<rparr>))))"

text \<open>A store is closed when the references held by its frames point into it.\<close>

definition closed_store :: "('a, 'l) store \<Rightarrow> bool" where
  "closed_store s \<longleftrightarrow>
     list_all (\<lambda>x. case x of PdFrame v c i \<Rightarrow> v < length s \<and> c < length s \<and> i < length s | _ \<Rightarrow> True) s"


section \<open>Text files, \<^verbatim>\<open>str.split\<close>, \<^verbatim>\<open>str.strip\<close> and \<^verbatim>\<open>re.findall\<close>\<close>

text \<open>
  \<^verbatim>\<open>text.split(sep)\<close> scans from the left and cuts at each occurrence of \<open>sep\<close> that does
  not overlap the previous cut; \<open>split_parts\<close> is the scan for a non-empty separator
  (\<open>str_split\<close> raises for the empty one, as Python does).
\<close>

function split_parts :: "string \<Rightarrow> string \<Rightarrow> string list" where
  "split_parts sep [] = [[]]"
| "split_parts sep (c # cs) =
     (if sep \<noteq> [] \<and> prefix sep (c # cs)
      then [] # split_parts sep (drop (length sep) (c # cs))
      else (case split_parts sep cs of
              p # ps \<Rightarrow> (c # p) # ps
            | [] \<Rightarrow> [[c]]))"
  by pat_completeness auto
termination
  by (relation "measure (\<lambda>(sep, text). length text)") (auto simp: neq_Nil_conv)

definition str_split :: "string \<Rightarrow> string \<Rightarrow> error + string list" where
  "str_split text sep =
     (if sep = [] then Inl (ValueError ''empty separator'') else Inr (split_parts sep text))"

text \<open>\<^verbatim>\<open>s.strip(chars)\<close> removes the leading and trailing characters that are in \<open>chars\<close>;
  \<^verbatim>\<open>s.strip()\<close> removes white space.\<close>

definition str_strip :: "string \<Rightarrow> char set \<Rightarrow> string" where
  "str_strip s chars = rev (dropWhile (\<lambda>c. c \<in> chars) (rev (dropWhile (\<lambda>c. c \<in> chars) s)))"

definition whitespace :: "char set" where
  "whitespace = set (map char_of [9, 10, 11, 12, 13, 28, 29, 30, 31, 32 :: nat])"

text \<open>
  \<^verbatim>\<open>re.findall\<close> for the three patterns of the module, all of the shape
  \<^verbatim>\<open>literal(.*?)c\<close> with one closing character \<open>c\<close>: at each position from the left, the
  literal must match; the lazy group then takes the shortest run of characters up to
  the first \<open>c\<close>, which must not cross a newline unless \<^verbatim>\<open>re.DOTALL\<close> is given. A match
  yields the group and the scan resumes after it; otherwise the scan moves on by one
  character.
\<close>

function findall :: "bool \<Rightarrow> string \<Rightarrow> char \<Rightarrow> string \<Rightarrow> string list" where
  "findall dotall lit stop [] = []"
| "findall dotall lit stop (c # cs) =
     (if prefix lit (c # cs)
      then (let rest = drop (length lit) (c # cs);
                grp = takeWhile (\<lambda>x. x \<noteq> stop \<and> (dotall \<or> x \<noteq> CHR 0x0A)) rest
            in case drop (length grp) rest of
                 a # tail \<Rightarrow>
                   if a = stop then grp # findall dotall lit stop tail
                   else findall dotall lit stop cs
               | [] \<Rightarrow> findall dotall lit stop cs)
      else findall dotall lit stop cs)"
  by pat_completeness auto
termination
proof (relation "measure (\<lambda>(dotall, lit, stop, text). length text)", goal_cases)
  case 1
  show ?case by simp
next
  case 2
  then show ?case by simp
next
  case (3 dotall lit stop c cs x xa x21 x22)
  from 3(4) have "Suc (length x22) = length (drop (length xa) x)" by simp
  also have "\<dots> \<le> length x" by simp
  also have "\<dots> \<le> length (c # cs)" unfolding 3(2) by simp
  finally show ?case by simp
qed simp_all

text \<open>The number of positions of a text at which a given string starts.\<close>

fun occurrences :: "string \<Rightarrow> string \<Rightarrow> nat" where
  "occurrences sep [] = (if sep = [] then 1 else 0)"
| "occurrences sep (c # cs) = (if prefix sep (c # cs) then 1 else 0) + occurrences sep cs"

text \<open>\<^verbatim>\<open>sep.join(parts)\<close>, and separators no proper suffix of which is also a prefix.\<close>

fun str_join :: "string \<Rightarrow> string list \<Rightarrow> string" where
  "str_join sep [] = []"
| "str_join sep [p] = p"
| "str_join sep (p # q # ps) = p @ sep @ str_join sep (q # ps)"

definition unbordered :: "string \<Rightarrow> bool" where
  "unbordered sep \<longleftrightarrow> list_all (\<lambda>u. u = [] \<or> u = sep \<or> \<not> prefix u sep) (suffixes sep)"

section \<open>The matrix loaders\<close>

text \<open>
  The file system is a map from paths to contents. \<^verbatim>\<open>pandas.read_csv\<close> is a parameter
  of the loaders: a function from the text it is given to a frame or an exception.
\<close>

definition read_text :: "(string \<rightharpoonup> string) \<Rightarrow> string \<Rightarrow> error + string" where
  "read_text fs path = (case fs path of None \<Rightarrow> Inl FileNotFoundError | Some text \<Rightarrow> Inr text)"

definition drop_last_column :: "('a, 'l) DataFrame \<Rightarrow> ('a, 'l) DataFrame" where
  "drop_last_column df =
     df\<lparr>df_values := map butlast (df_values df), df_columns := butlast (df_columns df)\<rparr>"

text \<open>
  \<^verbatim>\<open>
  def readin_q3d_matrix(path, delim_whitespace=True):
      text = Path(path).read_text()
      s1 = text.split('Capacitance Matrix')
      assert len(s1) == 2, "Copuld not split text to `Capacitance Matrix`"
      s2 = s1[1].split('Conductance Matrix')
      df_cmat = pd.read_csv(io.StringIO(s2[0].strip()), ...)
      if len(s2) > 1: df_cond = pd.read_csv(io.StringIO(s2[1].strip()), ...)
      else: df_cond = None
      if delim_whitespace == False and len(df_cmat.columns):
          df_cmat = df_cmat.drop(df_cmat.columns[-1], axis=1)
      units = re.findall(r'C Units:(.*?),', text)[0]
      design_variation = re.findall(r'DesignVariation:(.*?)\n', text)
      if len(design_variation) == 0:
          design_variation = re.findall(r'Design Variation:(.*?)\n', text)
          if design_variation: design_variation = design_variation[0]
          else: design_variation = ''
      else: design_variation = design_variation[0]
      return df_cmat, units, design_variation, df_cond
  \<close>
  \<open>parse_sections\<close> is everything after the \<^verbatim>\<open>assert\<close>, given \<^verbatim>\<open>s1[1]\<close>. The assertion is
  modelled as enabled (Python without \<^verbatim>\<open>-O\<close>).
\<close>

definition parse_sections ::
  "(bool \<Rightarrow> string \<Rightarrow> error + ('a, 'l) DataFrame) \<Rightarrow> bool \<Rightarrow> string \<Rightarrow> string \<Rightarrow>
   error + ('a, 'l) DataFrame \<times> string \<times> string \<times> ('a, 'l) DataFrame option" where
  "parse_sections read_csv delim_whitespace text s1_1 =
     and_then (str_split s1_1 ''Conductance Matrix'') (\<lambda>s2.
     and_then (read_csv delim_whitespace (str_strip (hd s2) whitespace)) (\<lambda>df_cmat.
     and_then (if length s2 > 1
               then and_then (read_csv delim_whitespace (str_strip (s2 ! 1) whitespace))
                      (\<lambda>df. Inr (Some df))
               else Inr None) (\<lambda>df_cond.
     let df_cmat =
           (if \<not> delim_whitespace \<and> length (df_columns df_cmat) \<noteq> 0
            then drop_last_column df_cmat else df_cmat)
     in
     and_then (getitem (findall False ''C Units:'' CHR '','' text) 0) (\<lambda>units.
     let design_variation = findall False ''DesignVariation:'' CHR 0x0A text;
         design_variation =
           (if length design_variation = 0
            then (let design_variation = findall False ''Design Variation:'' CHR 0x0A text
                  in if design_variation \<noteq> [] then hd design_variation else [])
            else hd design_variation)
     in Inr (df_cmat, units, design_variation, df_cond)))))"

definition readin_q3d_matrix ::
  "(bool \<Rightarrow> string \<Rightarrow> error + ('a, 'l) DataFrame) \<Rightarrow> (string \<rightharpoonup> string) \<Rightarrow> string \<Rightarrow> bool \<Rightarrow>
   error + ('a, 'l) DataFrame \<times> string \<times> string \<times> ('a, 'l) DataFrame option" where
  "readin_q3d_matrix read_csv fs path delim_whitespace =
     and_then (read_text fs path) (\<lambda>text.
     and_then (str_split text ''Capacitance Matrix'') (\<lambda>s1.
     if length s1 \<noteq> 2
     then Inl (AssertionError ''Copuld not split text to `Capacitance Matrix`'')
     else parse_sections read_csv delim_whitespace text (s1 ! 1)))"

text \<open>
  \<^verbatim>\<open>
  def readin_q3d_matrix_m(path):
      text = Path(path).read_text()
      match = re.findall(r'capMatrix (.*?)]', text, re.DOTALL)
      if match:
          match = match[0].strip('= [').strip(']').strip('\n')
          dfC = pd.read_csv(io.StringIO(match), skipinitialspace=True, header=None)
      return dfC
  \<close>
  When the \<^verbatim>\<open>if\<close> is not taken, \<^verbatim>\<open>dfC\<close> is unbound at the \<^verbatim>\<open>return\<close>.
\<close>

definition readin_q3d_matrix_m ::
  "(string \<Rightarrow> error + 'df) \<Rightarrow> (string \<rightharpoonup> string) \<Rightarrow> string \<Rightarrow> error + 'df" where
  "readin_q3d_matrix_m read_csv fs path =
     and_then (read_text fs path) (\<lambda>text.
     let match = findall True ''capMatrix '' CHR '']'' text in
     if match \<noteq> []
     then (let match = str_strip (str_strip (str_strip (hd match) (set ''= ['')) (set '']''))
                         {CHR 0x0A}
           in and_then (read_csv match) (\<lambda>dfC. Inr dfC))
     else Inl (UnboundLocalError ''dfC''))"


section \<open>The quantum-level solver\<close>

text \<open>
  Numbers. Python floats and NumPy \<^verbatim>\<open>float64\<close> values are modelled as real numbers, with
  no rounding and no overflow. What is kept of IEEE arithmetic is the division by zero,
  where the two kinds of number differ: dividing by a zero Python float raises
  \<open>ZeroDivisionError\<close>, dividing by a zero \<^verbatim>\<open>numpy.float64\<close> warns and gives \<^verbatim>\<open>inf\<close>
  (\<^verbatim>\<open>nan\<close> for zero by zero), and \<^verbatim>\<open>inf\<close> and \<^verbatim>\<open>nan\<close> then go through sums, products and
  comparisons by the IEEE rules. The capacitance argument of the solver therefore carries
  its Python type; the reducer and the fitting routine pass a \<^verbatim>\<open>numpy.float64\<close>.
  The module's constants: electron charge, Planck's constant, the reduced one, and the
  flux quantum.
\<close>

definition e_charge :: real where "e_charge = 160217657 / 10 ^ 27"
definition h_planck :: real where "h_planck = 662606957 / 10 ^ 42"
definition hbar :: real where "hbar = 10545718 / 10 ^ 41"
definition phinot :: real where "phinot = 2067 / 10 ^ 18"
definition phi0 :: real where "phi0 = phinot / (2 * pi)"

datatype number = PyFloat real | NpFloat64 real

fun num_val :: "number \<Rightarrow> real" where
  "num_val (PyFloat x) = x"
| "num_val (NpFloat64 x) = x"

text \<open>The product of a number and a Python float has the type of the number.\<close>

fun num_times :: "number \<Rightarrow> real \<Rightarrow> number" where
  "num_times (PyFloat x) k = PyFloat (x * k)"
| "num_times (NpFloat64 x) k = NpFloat64 (x * k)"

datatype float64 = Finite real | PosInf | NegInf | NaN

definition signed_inf :: "real \<Rightarrow> float64" where
  "signed_inf a = (if a = 0 then NaN else if 0 < a then PosInf else NegInf)"

text \<open>A Python float divided by a number.\<close>

definition float_divide :: "real \<Rightarrow> number \<Rightarrow> error + float64" where
  "float_divide a C =
     (case C of
        PyFloat c \<Rightarrow> if c = 0 then Inl ZeroDivisionError else Inr (Finite (a / c))
      | NpFloat64 c \<Rightarrow> Inr (if c = 0 then signed_inf a else Finite (a / c)))"

fun f64_times :: "float64 \<Rightarrow> float64 \<Rightarrow> float64" where
  "f64_times (Finite a) (Finite b) = Finite (a * b)"
| "f64_times (Finite a) PosInf = signed_inf a"
| "f64_times (Finite a) NegInf = signed_inf (- a)"
| "f64_times PosInf (Finite b) = signed_inf b"
| "f64_times NegInf (Finite b) = signed_inf (- b)"
| "f64_times PosInf PosInf = PosInf"
| "f64_times PosInf NegInf = NegInf"
| "f64_times NegInf PosInf = NegInf"
| "f64_times NegInf NegInf = PosInf"
| "f64_times NaN b = NaN"
| "f64_times a NaN = NaN"

fun f64_plus :: "float64 \<Rightarrow> float64 \<Rightarrow> float64" where
  "f64_plus (Finite a) (Finite b) = Finite (a + b)"
| "f64_plus (Finite a) PosInf = PosInf"
| "f64_plus (Finite a) NegInf = NegInf"
| "f64_plus PosInf (Finite b) = PosInf"
| "f64_plus NegInf (Finite b) = NegInf"
| "f64_plus PosInf PosInf = PosInf"
| "f64_plus NegInf NegInf = NegInf"
| "f64_plus PosInf NegInf = NaN"
| "f64_plus NegInf PosInf = NaN"
| "f64_plus NaN b = NaN"
| "f64_plus a NaN = NaN"

text \<open>The comparison \<^verbatim>\<open>==\<close>: \<^verbatim>\<open>nan\<close> is equal to nothing, itself included.\<close>

fun f64_eq :: "float64 \<Rightarrow> float64 \<Rightarrow> bool" where
  "f64_eq (Finite a) (Finite b) \<longleftrightarrow> a = b"
| "f64_eq PosInf PosInf \<longleftrightarrow> True"
| "f64_eq NegInf NegInf \<longleftrightarrow> True"
| "f64_eq a b \<longleftrightarrow> False"

fun is_finite :: "float64 \<Rightarrow> bool" where
  "is_finite (Finite a) \<longleftrightarrow> True"
| "is_finite a \<longleftrightarrow> False"

fun finite_value :: "float64 \<Rightarrow> real" where
  "finite_value (Finite a) = a"
| "finite_value a = 0"

text \<open>
  A 2-D array is the list of its rows: \<open>matrix\<close> when all its entries are known to be
  finite, a list of lists of \<open>float64\<close> otherwise. \<^verbatim>\<open>np.conj\<close> of a real array is the array
  itself; \<^verbatim>\<open>np.array_equal\<close> compares the shapes and then the entries with \<^verbatim>\<open>==\<close>.
\<close>

type_synonym matrix = "real list list"

definition np_transpose :: "'a list list \<Rightarrow> 'a list list" where
  "np_transpose m = (if m = [] then [] else map (\<lambda>j. map (\<lambda>row. row ! j) m) [0..<length (hd m)])"

definition np_conj :: "float64 list list \<Rightarrow> float64 list list" where
  "np_conj m = map (map (\<lambda>x. x)) m"

definition np_array_equal :: "float64 list list \<Rightarrow> float64 list list \<Rightarrow> bool" where
  "np_array_equal a b \<longleftrightarrow> list_all2 (list_all2 f64_eq) a b"

text \<open>
  \<^verbatim>\<open>
  nmax = 40; dim = 2 * nmax + 1
  nmat = np.zeros([dim, dim]);  nmat[ii, ii] = ii - nmax
  V = np.diag(-0.5 * np.ones([dim - 1]), 1);  V = (V + np.transpose(np.conj(V)))
  charge = np.linspace(-1., 1., N)
  \<close>
  \<open>nmat\<close>, \<open>np_eye\<close> and \<open>V\<close> give the entry at row \<open>i\<close> and column \<open>j\<close>.
\<close>

definition nmax :: nat where "nmax = 40"
definition dim :: nat where "dim = 2 * nmax + 1"

definition nmat :: "nat \<Rightarrow> nat \<Rightarrow> real" where
  "nmat i j = (if i = j then real i - real nmax else 0)"

definition np_eye :: "nat \<Rightarrow> nat \<Rightarrow> real" where
  "np_eye i j = (if i = j then 1 else 0)"

definition V_upper :: "nat \<Rightarrow> nat \<Rightarrow> real" where
  "V_upper i j = (if j = i + 1 then - (1 / 2) * 1 else 0)"

definition V :: "nat \<Rightarrow> nat \<Rightarrow> real" where
  "V i j = V_upper i j + V_upper j i"

definition np_linspace :: "int \<Rightarrow> error + real list" where
  "np_linspace N =
     (if N < 0 then Inl (ValueError ''Number of samples must be non-negative'')
      else if N = 1 then Inr [- 1]
      else Inr (map (\<lambda>i. - 1 + real i * ((1 - (- 1)) / real_of_int (N - 1))) [0..<nat N]))"

text \<open>
  \<^verbatim>\<open>H = 4 * Ec * (nmat - ng * np.eye(dim))**2 + EJ * V\<close>; the power of an array is taken
  entry by entry. \<^verbatim>\<open>Ec\<close> is the one operand that may be \<^verbatim>\<open>inf\<close> or \<^verbatim>\<open>nan\<close>.
\<close>

definition hamiltonian :: "float64 \<Rightarrow> real \<Rightarrow> real \<Rightarrow> float64 list list" where
  "hamiltonian Ec EJ ng =
     map (\<lambda>i. map (\<lambda>j.
         f64_plus (f64_times (f64_times (Finite 4) Ec) (Finite ((nmat i j - ng * np_eye i j)\<^sup>2)))
                  (Finite (EJ * V i j)))
       [0..<dim]) [0..<dim]"

text \<open>
  One pass of the loop over the offset charges:
  \<^verbatim>\<open>
  if (not np.array_equal(H, np.transpose(np.conj(H)))):
      raise ValueError('Matrix is not Hermitian')
  [d, v] = np.linalg.eig(H)
  sortIX = np.argsort(d);  sorted_d = d[sortIX]
  elvls[:, iindex] = (sorted_d - sorted_d[0])
  \<close>
  The eigenvalue routine \<^verbatim>\<open>np.linalg.eig\<close> is a parameter \<open>eig\<close>, from a matrix of finite
  entries to its list of eigenvalues in any order; it is expected to return \<open>dim\<close> of
  them. On a matrix with an \<^verbatim>\<open>inf\<close> or a \<^verbatim>\<open>nan\<close> NumPy raises \<^verbatim>\<open>LinAlgError\<close>.
\<close>

definition sample_levels ::
  "(matrix \<Rightarrow> real list) \<Rightarrow> float64 \<Rightarrow> real \<Rightarrow> real \<Rightarrow> error + real list" where
  "sample_levels eig Ec EJ ng =
     (let H = hamiltonian Ec EJ ng in
      if \<not> np_array_equal H (np_transpose (np_conj H))
      then Inl (ValueError ''Matrix is not Hermitian'')
      else if \<not> list_all (list_all is_finite) H then Inl (LibraryError ''LinAlgError'')
      else let d = eig (map (map finite_value) H) in
           if length d \<noteq> dim then Inl (LibraryError ''eig'')
           else let sorted_d = sort d in Inr (map (\<lambda>x. x - sorted_d ! 0) sorted_d))"

text \<open>
  The two energies, computed before the loop:
  \<^verbatim>\<open>
  C = Cq * 1e-15;  IC = IC * 1e-9;  Ec = e**2 / 2 / C
  varphi = hbar / 2 / e;  EJ = IC * varphi
  \<close>
\<close>

definition charging_energy :: "number \<Rightarrow> error + float64" where
  "charging_energy Cq = (let C = num_times Cq (1 / 10 ^ 15) in float_divide (e_charge\<^sup>2 / 2) C)"

definition josephson_energy :: "real \<Rightarrow> real" where
  "josephson_energy IC = (let IC = IC * (1 / 10 ^ 9); varphi = hbar / 2 / e_charge in IC * varphi)"

text \<open>
  The table \<^verbatim>\<open>elvls\<close> after the loop, as the list of its columns (one per offset charge):
  \<^verbatim>\<open>elvls[k, i]\<close> is \<open>elvls ! i ! k\<close>. \<^verbatim>\<open>Ec\<close> is computed first, then the grid
  \<^verbatim>\<open>charge = np.linspace(-1., 1., N)\<close>, then the columns in the order of the grid.
\<close>

definition levels_table ::
  "(matrix \<Rightarrow> real list) \<Rightarrow> number \<Rightarrow> real \<Rightarrow> int \<Rightarrow> error + real list list" where
  "levels_table eig Cq IC N =
     and_then (charging_energy Cq) (\<lambda>Ec.
     and_then (np_linspace N) (\<lambda>charge.
     let EJ = josephson_energy IC in
     traverse (\<lambda>ng. sample_levels eig Ec EJ ng) charge))"

text \<open>
  \<^verbatim>\<open>
  fqubitGHz = np.mean(elvls[1,] / h / 1e9)
  anharMHz = np.mean(1000 * (elvls[2,] / h / 1e9 - elvls[0,] / h / 1e9 -
                             2 * elvls[1,] / h / 1e9 - elvls[0,] / h / 1e9))
  disp = np.max(-elvls[1,] / h + elvls[1, 0] / h)
  tphi_ms = 2 / (2 * np.pi * disp * np.pi * 1e-4 * 1e-3)
  return fqubitGHz, anharMHz, disp, tphi_ms
  \<close>
  With no sample, \<^verbatim>\<open>elvls[1, 0]\<close> raises. \<open>disp\<close> is a NumPy scalar, so a zero \<open>disp\<close> gives
  \<^verbatim>\<open>inf\<close> for \<open>tphi_ms\<close> and no exception: \<open>None\<close> stands for it.
\<close>

definition np_mean :: "real list \<Rightarrow> real" where
  "np_mean xs = sum_list xs / real (length xs)"

definition levels_vs_ng_real_units ::
  "(matrix \<Rightarrow> real list) \<Rightarrow> number \<Rightarrow> real \<Rightarrow> int \<Rightarrow> error + real \<times> real \<times> real \<times> real option" where
  "levels_vs_ng_real_units eig Cq IC N =
     and_then (levels_table eig Cq IC N) (\<lambda>elvls.
     if elvls = [] then Inl IndexError
     else
       let level = (\<lambda>k. map (\<lambda>column. column ! k) elvls);
           fqubitGHz = np_mean (map (\<lambda>x. x / h_planck / 10 ^ 9) (level 1));
           anharMHz = np_mean (map (\<lambda>i. 1000 * (level 2 ! i / h_planck / 10 ^ 9
                         - level 0 ! i / h_planck / 10 ^ 9
                         - 2 * level 1 ! i / h_planck / 10 ^ 9
                         - level 0 ! i / h_planck / 10 ^ 9)) [0..<length elvls]);
           disp = Max (set (map (\<lambda>x. - x / h_planck + level 1 ! 0 / h_planck) (level 1)));
           tphi_ms = (if disp = 0 then None
                      else Some (2 / (2 * pi * disp * pi * (1 / 10 ^ 4) * (1 / 10 ^ 3))))
       in Inr (fqubitGHz, anharMHz, disp, tphi_ms))"

text \<open>
  A stand-in for the eigenvalue routine in concrete runs: the diagonal of the matrix,
  which is the list of its eigenvalues when the matrix is diagonal.
\<close>

definition diagonal_entries :: "matrix \<Rightarrow> real list" where
  "diagonal_entries H = map (\<lambda>i. H ! i ! i) [0..<dim]"


section \<open>The circuit-parameter reducer\<close>

text \<open>
  Arithmetic on NumPy values in the reducer. Where an operation has no real result (a
  division by zero, the square root or a fractional power of a negative number) NumPy
  warns and goes on with \<^verbatim>\<open>inf\<close> or \<^verbatim>\<open>nan\<close>. The model of the reducer does not follow the
  run from there: it stops with \<open>NonFinite\<close>, which stands for such a run and is not an
  exception of the program (nothing is claimed about what the program does next). A
  division by a zero Python float raises \<open>ZeroDivisionError\<close>.
\<close>

definition np_divide :: "real \<Rightarrow> real \<Rightarrow> error + real" where
  "np_divide a b = (if b = 0 then Inl NonFinite else Inr (a / b))"

definition np_sqrt :: "real \<Rightarrow> error + real" where
  "np_sqrt x = (if x < 0 then Inl NonFinite else Inr (sqrt x))"

definition np_power :: "real \<Rightarrow> real \<Rightarrow> error + real" where
  "np_power x p = (if x < 0 then Inl NonFinite else Inr (x powr p))"

definition py_divide :: "real \<Rightarrow> real \<Rightarrow> error + real" where
  "py_divide a b = (if b = 0 then Inl ZeroDivisionError else Inr (a / b))"

definition getitem2 :: "matrix \<Rightarrow> int \<Rightarrow> int \<Rightarrow> error + real" where
  "getitem2 m i j = and_then (getitem m i) (\<lambda>row. getitem row j)"

text \<open>The argument \<^verbatim>\<open>fb\<close> is a number or a list of numbers (\<^verbatim>\<open>isinstance(fb, (int, float))\<close>).\<close>

datatype fb_arg = FbNumber real | FbList "real list"

text \<open>
  \<^verbatim>\<open>
  if N < 0:
      raise ValueError('N must positive')
  if len(capMatrix) != (N + 3):
      raise ValueError('Capacitance matrix is not the right size')
  \<close>
\<close>

definition error_checks :: "matrix \<Rightarrow> int \<Rightarrow> error + unit" where
  "error_checks capMatrix N =
     (if N < 0 then Inl (ValueError ''N must positive'')
      else if int (length capMatrix) \<noteq> N + 3
      then Inl (ValueError ''Capacitance matrix is not the right size'')
      else Inr ())"

text \<open>
  \<^verbatim>\<open>
  wr = np.zeros(N)
  for ii in range(N):
      if ii == 0: wr[ii] = 2 * np.pi * fr * 1e9
      else:
          if isinstance(fb, (int, float)): wr[ii] = 2 * np.pi * fb * 1e9
          else: wr[ii] = 2 * np.pi * fb[ii - 1] * 1e9
  \<close>
\<close>

definition resonator_wr :: "int \<Rightarrow> fb_arg \<Rightarrow> real \<Rightarrow> error + real list" where
  "resonator_wr N fb fr =
     traverse (\<lambda>ii. if ii = 0 then Inr (2 * pi * fr * 10 ^ 9)
                     else (case fb of
                             FbNumber f \<Rightarrow> Inr (2 * pi * f * 10 ^ 9)
                           | FbList fs \<Rightarrow>
                               and_then (getitem fs (int ii - 1)) (\<lambda>f. Inr (2 * pi * f * 10 ^ 9))))
       [0..<nat N]"

text \<open>
  \<^verbatim>\<open>
  Zbus = 50;  Cr = 0.5 * np.pi / (wr * Zbus);  Lr = 1 / wr**2 / Cr
  if not res_L4_corr is None:
      for i in range(len(res_L4_corr)):
          if res_L4_corr[i]:
              Cr[i] /= 2.0;  Lr[i] *= 2.0
  \<close>
\<close>

fun apply_L4_corr :: "bool list \<Rightarrow> nat \<Rightarrow> real list \<times> real list \<Rightarrow> error + real list \<times> real list" where
  "apply_L4_corr [] i (Cr, Lr) = Inr (Cr, Lr)"
| "apply_L4_corr (flag # flags) i (Cr, Lr) =
     (if flag
      then (if i < length Cr
            then apply_L4_corr flags (Suc i) (Cr[i := Cr ! i / 2], Lr[i := Lr ! i * 2])
            else Inl IndexError)
      else apply_L4_corr flags (Suc i) (Cr, Lr))"

definition transmission_lines ::
  "real list \<Rightarrow> bool list option \<Rightarrow> error + real list \<times> real list" where
  "transmission_lines wr res_L4_corr =
     (let Zbus = 50 in
      and_then (traverse (\<lambda>w. np_divide (1 / 2 * pi) (w * Zbus)) wr) (\<lambda>Cr.
      and_then (traverse (\<lambda>(w, c). and_then (np_divide 1 (w\<^sup>2)) (\<lambda>q. np_divide q c)) (zip wr Cr))
        (\<lambda>Lr.
      case res_L4_corr of
        None \<Rightarrow> Inr (Cr, Lr)
      | Some flags \<Rightarrow> apply_L4_corr flags 0 (Cr, Lr))))"

text \<open>
  \<^verbatim>\<open>
  ground_index = max([0, N - 1])
  qubit_index = [ground_index + 1, ground_index + 2]
  bus_index = np.zeros(N, dtype=int)
  for ii in range(N):
      if ii == 0: bus_index[ii] = len(capMatrix) - 1
      else: bus_index[ii] = ii - 1
  \<close>
  \<^verbatim>\<open>bus_index\<close> is ordered as readout, bus 1, bus 2, and so on.
\<close>

definition ground_index :: "int \<Rightarrow> int" where
  "ground_index N = max 0 (N - 1)"

definition qubit_index :: "int \<Rightarrow> int list" where
  "qubit_index N = [ground_index N + 1, ground_index N + 2]"

definition bus_index :: "int \<Rightarrow> matrix \<Rightarrow> int list" where
  "bus_index N capMatrix =
     map (\<lambda>ii. if ii = 0 then int (length capMatrix) - 1 else int ii - 1) [0..<nat N]"

text \<open>
  The capacitances read from the matrix and the lumped ones derived from them:
  \<^verbatim>\<open>
  Cg = [-capMatrix[qubit_index[0], ground_index], -capMatrix[qubit_index[1], ground_index]]
  Cs = -capMatrix[qubit_index[0], qubit_index[1]]
  Cbus[ii, jj] = -capMatrix[qubit_index[ii], bus_index[jj]]
  Cbusbus[ii, jj] = -capMatrix[bus_index[ii], bus_index[jj]]      (ii != jj)
  C1S = Cg[0] + np.sum(Cbus[0,]);  C2S = Cg[1] + np.sum(Cbus[1,])
  tCSq = Cs + C1S * C2S / (C1S + C2S)
  tCSbus[ii] = Cr[ii] - (Cbus[0, ii]+Cbus[1, ii])**2 / (C1S+C2S)
               + np.sum(Cbus[:, ii]) + np.sum(Cbusbus[ii, :])
  tCqbus = (C2S * Cbus[0,] - Cbus[1,] * C1S) / (C1S + C2S)
  tCqbusbus[ii, jj] = Cbusbus[ii, jj] + (Cbus[0, ii]+Cbus[1, ii])*(Cbus[0, jj]+Cbus[1, jj])/(C1S+C2S)
  bbus = (C2S * Cbus[0,] - Cbus[1,] * C1S) / ((C1S + C2S) * Cs + C1S * C2S)
  Cq = tCSq + CJ
  \<close>
  An operation on arrays is taken entry by entry, so on empty arrays nothing is computed.
\<close>

record lumped =
  lp_Cg :: "real list"
  lp_Cs :: real
  lp_Cbus :: "real list list"
  lp_Cbusbus :: "real list list"
  lp_tCSbus :: "real list"
  lp_tCqbus :: "real list"
  lp_tCqbusbus :: "real list list"
  lp_bbus :: "real list"
  lp_Cq :: real

definition capacitances :: "matrix \<Rightarrow> int \<Rightarrow> real list \<Rightarrow> real \<Rightarrow> error + lumped" where
  "capacitances capMatrix N Cr CJ =
     (let g = ground_index N; q = qubit_index N; b = bus_index N capMatrix; n = nat N in
      and_then (traverse (\<lambda>qi. and_then (getitem2 capMatrix qi g) (\<lambda>c. Inr (- c))) q) (\<lambda>Cg.
      and_then (getitem2 capMatrix (q ! 0) (q ! 1)) (\<lambda>c. let Cs = - c in
      and_then (traverse (\<lambda>qi. traverse (\<lambda>bj.
          and_then (getitem2 capMatrix qi bj) (\<lambda>c. Inr (- c))) b) q) (\<lambda>Cbus.
      and_then (traverse (\<lambda>ii. traverse (\<lambda>jj.
          if ii \<noteq> jj then and_then (getitem2 capMatrix (b ! ii) (b ! jj)) (\<lambda>c. Inr (- c))
          else Inr 0) [0..<n]) [0..<n]) (\<lambda>Cbusbus.
      let C1S = Cg ! 0 + sum_list (Cbus ! 0); C2S = Cg ! 1 + sum_list (Cbus ! 1) in
      and_then (np_divide (C1S * C2S) (C1S + C2S)) (\<lambda>r. let tCSq = Cs + r in
      and_then (traverse (\<lambda>ii.
          and_then (np_divide ((Cbus ! 0 ! ii + Cbus ! 1 ! ii)\<^sup>2) (C1S + C2S)) (\<lambda>r.
          Inr (Cr ! ii - r + (Cbus ! 0 ! ii + Cbus ! 1 ! ii) + sum_list (Cbusbus ! ii))))
          [0..<n]) (\<lambda>tCSbus.
      and_then (traverse (\<lambda>ii.
          np_divide (C2S * Cbus ! 0 ! ii - Cbus ! 1 ! ii * C1S) (C1S + C2S)) [0..<n]) (\<lambda>tCqbus.
      and_then (traverse (\<lambda>ii. traverse (\<lambda>jj.
          and_then (np_divide ((Cbus ! 0 ! ii + Cbus ! 1 ! ii) * (Cbus ! 0 ! jj + Cbus ! 1 ! jj))
                      (C1S + C2S)) (\<lambda>r. Inr (Cbusbus ! ii ! jj + r))) [0..<n]) [0..<n])
        (\<lambda>tCqbusbus.
      and_then (traverse (\<lambda>ii.
          np_divide (C2S * Cbus ! 0 ! ii - Cbus ! 1 ! ii * C1S) ((C1S + C2S) * Cs + C1S * C2S))
          [0..<n]) (\<lambda>bbus.
      Inr \<lparr>lp_Cg = Cg, lp_Cs = Cs, lp_Cbus = Cbus, lp_Cbusbus = Cbusbus, lp_tCSbus = tCSbus,
           lp_tCqbus = tCqbus, lp_tCqbusbus = tCqbusbus, lp_bbus = bbus, lp_Cq = tCSq + CJ\<rparr>))))))))))"

text \<open>
  \<^verbatim>\<open>
  def transmon_props(Ic, Cq):
      LJ = phi0 / Ic;  EJ = phi0**2 / LJ / hbar;  Zqp = np.sqrt(LJ / Cq)
      EC = e**2 / 2 / Cq / hbar
      wq0 = 1 / np.sqrt(LJ * Cq);  wq = 1 / np.sqrt(LJ * Cq) - EC
      eps1 = EC * 2**9 * (2/np.sqrt(np.pi)) * (EJ/2/EC)**(1.25) * np.exp(-np.sqrt(8*EJ/EC))
      return LJ, EJ, Zqp, EC, wq, wq0, eps1
  \<close>
  \<^verbatim>\<open>Ic\<close> and \<^verbatim>\<open>phi0\<close> are Python floats; \<^verbatim>\<open>Cq\<close> comes from the NumPy matrix.
\<close>

definition transmon_props ::
  "real \<Rightarrow> real \<Rightarrow> error + real \<times> real \<times> real \<times> real \<times> real \<times> real \<times> real" where
  "transmon_props Ic Cq =
     and_then (py_divide phi0 Ic) (\<lambda>LJ.
     and_then (py_divide (phi0\<^sup>2) LJ) (\<lambda>r. let EJ = r / hbar in
     and_then (np_divide LJ Cq) (\<lambda>r.
     and_then (np_sqrt r) (\<lambda>Zqp.
     and_then (np_divide (e_charge\<^sup>2 / 2) Cq) (\<lambda>r. let EC = r / hbar in
     and_then (np_sqrt (LJ * Cq)) (\<lambda>s.
     and_then (np_divide 1 s) (\<lambda>wq0. let wq = wq0 - EC in
     and_then (np_divide (EJ / 2) EC) (\<lambda>r.
     and_then (np_power r (5 / 4)) (\<lambda>p.
     and_then (np_divide (8 * EJ) EC) (\<lambda>r.
     and_then (np_sqrt r) (\<lambda>s.
     let eps1 = EC * 2 ^ 9 * (2 / sqrt pi) * p * exp (- s)
     in Inr (LJ, EJ, Zqp, EC, wq, wq0, eps1))))))))))))"

text \<open>
  \<^verbatim>\<open>
  def chi(g, wr, w01, w12):
      chibus_0 = -2 * g**2 * w01 / (w01**2 - wr**2)
      chibus_1 = g**2 * (1 / (w01 - wr) - 2 / (w12 - wr) + 1 / (w01 + wr) - 2 / (w12 + wr))
      return (chibus_1 - chibus_0) / 2
  \<close>
  applied to the entries of \<^verbatim>\<open>gqbus\<close> and \<^verbatim>\<open>wr\<close>.
\<close>

definition chi :: "real \<Rightarrow> real \<Rightarrow> real \<Rightarrow> real \<Rightarrow> error + real" where
  "chi g wr w01 w12 =
     and_then (np_divide (- 2 * g\<^sup>2 * w01) (w01\<^sup>2 - wr\<^sup>2)) (\<lambda>chibus_0.
     and_then (np_divide 1 (w01 - wr)) (\<lambda>a.
     and_then (np_divide 2 (w12 - wr)) (\<lambda>b.
     and_then (np_divide 1 (w01 + wr)) (\<lambda>c.
     and_then (np_divide 2 (w12 + wr)) (\<lambda>d.
     let chibus_1 = g\<^sup>2 * (a - b + c - d)
     in Inr ((chibus_1 - chibus_0) / 2))))))"

text \<open>
  The dictionary \<^verbatim>\<open>ham_dict\<close> the reducer returns, together with the local \<^verbatim>\<open>T1\<close> that it
  computes and (with \<^verbatim>\<open>print_info\<close>) prints; printing itself is not modelled.
  \<^verbatim>\<open>Cq\<close>, computed from entries of the NumPy matrix, is a \<^verbatim>\<open>numpy.float64\<close>.
  \<^verbatim>\<open>
  fq, alpha, disp, tphi_ms = levels_vs_ng_real_units(Cq / 1e-15, Ic / 1e-9, N=51)
  wq = 2 * np.pi * fq * 1e9
  Zbus = np.sqrt(Lr / tCSbus)
  gqbus = 0.5 * wr * bbus * np.sqrt(Zbus / Zqp) * g_scale
  gbus_in_MHz = gqbus / 1e6 / 2 / np.pi
  gbusbus[ii, jj] = (0.01) * tCqbusbus[ii, jj] / (tCSbus[ii] * tCSbus[jj])
  Qbus[ii] = Qreadout if ii == 0 else Qcouplingbus;  kbus = wr / Qbus
  T1bus = (wr**2 - wq**2)**2 / (4 * kbus * gqbus**2 * wq**2)
  if N > 0: T1 = 1 / (np.sum(1 / T1bus))
  else: T1 = 100
  d = alpha * 2 * np.pi * 1e6
  Chi_in_MHz = 2 * chi(gqbus, wr, wq, d + wq) / 2 / np.pi / 1e6
  \<close>
\<close>

record ham_result =
  ham_fQ :: real
  ham_EC :: real
  ham_EJ :: real
  ham_alpha :: real
  ham_dispersion :: real
  ham_gbus :: "real list"
  ham_chi_in_MHz :: "real list"
  ham_T1 :: real

definition extract_transmon_coupled_Noscillator ::
  "(matrix \<Rightarrow> real list) \<Rightarrow> matrix \<Rightarrow> real \<Rightarrow> real \<Rightarrow> int \<Rightarrow> fb_arg \<Rightarrow> real \<Rightarrow>
   bool list option \<Rightarrow> real \<Rightarrow> error + ham_result" where
  "extract_transmon_coupled_Noscillator eig capMatrix Ic CJ N fb fr res_L4_corr g_scale =
     and_then (error_checks capMatrix N) (\<lambda>_.
     and_then (resonator_wr N fb fr) (\<lambda>wr.
     and_then (transmission_lines wr res_L4_corr) (\<lambda>(Cr, Lr).
     and_then (capacitances capMatrix N Cr CJ) (\<lambda>lp.
     and_then (transmon_props Ic (lp_Cq lp)) (\<lambda>(LJ, EJ, Zqp, EC, wq, wq0, eps1).
     and_then (levels_vs_ng_real_units eig (NpFloat64 (lp_Cq lp / (1 / 10 ^ 15))) (Ic / (1 / 10 ^ 9)) 51)
       (\<lambda>(fq, alpha, disp, tphi_ms).
     let wq = 2 * pi * fq * 10 ^ 9; n = nat N in
     and_then (traverse (\<lambda>ii. and_then (np_divide (Lr ! ii) (lp_tCSbus lp ! ii)) np_sqrt) [0..<n])
       (\<lambda>Zbus.
     and_then (traverse (\<lambda>ii.
         and_then (np_divide (Zbus ! ii) Zqp) (\<lambda>r. and_then (np_sqrt r) (\<lambda>s.
         Inr (1 / 2 * wr ! ii * lp_bbus lp ! ii * s * g_scale)))) [0..<n]) (\<lambda>gqbus.
     let gbus_in_MHz = map (\<lambda>g. g / 10 ^ 6 / 2 / pi) gqbus in
     and_then (traverse (\<lambda>ii. traverse (\<lambda>jj.
         np_divide (1 / 100 * lp_tCqbusbus lp ! ii ! jj) (lp_tCSbus lp ! ii * lp_tCSbus lp ! jj))
         [0..<n]) [0..<n]) (\<lambda>gbusbus.
     let Qreadout = 10 ^ 4; Qcouplingbus = 10 ^ 5;
         Qbus = map (\<lambda>ii. if ii = 0 then Qreadout else Qcouplingbus) [0..<n];
         kbus = map (\<lambda>ii. wr ! ii / Qbus ! ii) [0..<n] in
     and_then (traverse (\<lambda>ii.
         np_divide (((wr ! ii)\<^sup>2 - wq\<^sup>2)\<^sup>2) (4 * kbus ! ii * (gqbus ! ii)\<^sup>2 * wq\<^sup>2))
         [0..<n]) (\<lambda>T1bus.
     and_then (if N > 0
               then and_then (traverse (\<lambda>t. np_divide 1 t) T1bus)
                      (\<lambda>inv. np_divide 1 (sum_list inv))
               else Inr 100) (\<lambda>T1.
     let d = alpha * 2 * pi * 10 ^ 6 in
     and_then (traverse (\<lambda>ii.
         and_then (chi (gqbus ! ii) (wr ! ii) wq (d + wq)) (\<lambda>x. Inr (2 * x / 2 / pi / 10 ^ 6)))
         [0..<n]) (\<lambda>Chi_in_MHz.
     Inr \<lparr>ham_fQ = wq / 2 / pi / 10 ^ 9, ham_EC = EC / 2 / pi / 10 ^ 6,
          ham_EJ = EJ / 2 / pi / 10 ^ 9, ham_alpha = alpha, ham_dispersion = disp / 10 ^ 3,
          ham_gbus = gbus_in_MHz, ham_chi_in_MHz = Chi_in_MHz, ham_T1 = T1\<rparr>))))))))))))"

section \<open>The basis reorderer: round trip\<close>

lemma traverse_map:
  "(\<And>x. x \<in> set xs \<Longrightarrow> f x = Inr (g x)) \<Longrightarrow> traverse f xs = Inr (map g xs)"
  by (induction xs) auto

lemma take_idx_valid:
  "list_all (valid_index (length xs)) idx \<Longrightarrow>
   take_idx xs idx = Inr (map (\<lambda>i. xs ! wrap_index (length xs) i) idx)"
  unfolding take_idx_def
  by (rule traverse_map) (simp add: getitem_def list_all_iff)

lemma take_ix_valid:
  assumes "list_all (valid_index (length arr)) rows"
    and "list_all (\<lambda>row. length row = m) arr"
    and "list_all (valid_index m) cols"
  shows "take_ix arr rows cols =
     Inr (map (\<lambda>i. map (\<lambda>j. arr ! wrap_index (length arr) i ! wrap_index m j) cols) rows)"
  unfolding take_ix_def
proof (rule traverse_map)
  fix i assume "i \<in> set rows"
  then have v: "valid_index (length arr) i" using assms(1) by (simp add: list_all_iff)
  then have "wrap_index (length arr) i < length arr"
    by (auto simp: valid_index_def wrap_index_def)
  then have "length (arr ! wrap_index (length arr) i) = m"
    using assms(2) by (simp add: list_all_length)
  then show "and_then (getitem arr i) (\<lambda>row. take_idx row cols) =
     Inr (map (\<lambda>j. arr ! wrap_index (length arr) i ! wrap_index m j) cols)"
    using v assms(3) by (simp add: and_then_def getitem_def take_idx_valid)
qed

lemma wrap_index_less: "valid_index n i \<Longrightarrow> wrap_index n i < n"
  by (auto simp: valid_index_def wrap_index_def)

lemma wrap_index_int [simp]: "wrap_index n (int k) = k"
  by (simp add: wrap_index_def)

lemma valid_index_int [simp]: "valid_index n (int k) \<longleftrightarrow> k < n"
  by (simp add: valid_index_def)

lemma np_delete_arange:
  "np_delete (np_arange n) obj =
     (if list_all (valid_index n) obj
      then Inr (map int (filter (\<lambda>k. k \<notin> set (positions n obj)) [0..<n]))
      else Inl IndexError)"
  by (simp add: np_delete_def np_arange_def positions_def Let_def cong: map_cong)

lemma move_index_to_valid:
  assumes "move_index_to i_from i_to n = Inr idx"
  shows "list_all (valid_index n) idx"
proof -
  from assms obtain idxs where d: "np_delete (np_arange n) i_from = Inr idxs"
    and i: "np_insert idxs i_to i_from = Inr idx"
    by (auto simp: move_index_to_def and_then_def split: sum.splits)
  from d have v: "list_all (valid_index n) i_from"
    and e: "idxs = map int (filter (\<lambda>k. k \<notin> set (positions n i_from)) [0..<n])"
    by (auto simp: np_delete_arange split: if_splits)
  from e have "list_all (valid_index n) idxs" by (simp add: list_all_iff)
  then have "list_all (valid_index n) (take k idxs)" "list_all (valid_index n) (drop k idxs)" for k
    by (auto simp: list_all_iff dest: in_set_takeD in_set_dropD)
  with i v show ?thesis
    by (auto simp: np_insert_def Let_def split: if_splits)
qed

lemma move_index_to_form:
  assumes "move_index_to i_from i_to n = Inr idx"
  shows "\<exists>k. positions n idx =
     take k (filter (\<lambda>k. k \<notin> set (positions n i_from)) [0..<n]) @ positions n i_from @
     drop k (filter (\<lambda>k. k \<notin> set (positions n i_from)) [0..<n])"
proof -
  let ?R = "filter (\<lambda>k. k \<notin> set (positions n i_from)) [0..<n]"
  from assms obtain idxs where d: "np_delete (np_arange n) i_from = Inr idxs"
    and i: "np_insert idxs i_to i_from = Inr idx"
    by (auto simp: move_index_to_def and_then_def split: sum.splits)
  from d have e: "idxs = map int ?R"
    by (auto simp: np_delete_arange split: if_splits)
  have p: "positions n idxs = ?R"
    unfolding e positions_def by (simp add: comp_def)
  from i obtain k where "idx = take k idxs @ i_from @ drop k idxs"
    by (auto simp: np_insert_def Let_def split: if_splits)
  then have "positions n idx = take k (positions n idxs) @ positions n i_from @ drop k (positions n idxs)"
    by (simp add: positions_def take_map drop_map)
  with p show ?thesis by auto
qed

lemma move_index_to_perm:
  assumes m: "move_index_to i_from i_to n = Inr idx"
    and d: "distinct (positions n i_from)"
  shows "distinct (positions n idx)" and "set (positions n idx) = {..<n}"
    and "length idx = n"
proof -
  let ?R = "filter (\<lambda>k. k \<notin> set (positions n i_from)) [0..<n]"
  from move_index_to_form [OF m] obtain k where
    f: "positions n idx = take k ?R @ positions n i_from @ drop k ?R" by blast
  have v: "list_all (valid_index n) i_from"
    using m by (auto simp: move_index_to_def and_then_def np_delete_arange split: sum.splits if_splits)
  then have sub: "set (positions n i_from) \<subseteq> {..<n}"
    by (auto simp: positions_def list_all_iff wrap_index_less)
  have dR: "distinct ?R" by simp
  have "distinct (take k ?R @ drop k ?R)" using dR by (simp only: append_take_drop_id)
  then have "distinct (take k ?R)" "distinct (drop k ?R)" "set (take k ?R) \<inter> set (drop k ?R) = {}"
    by (simp_all only: distinct_append)
  moreover have "set (take k ?R) \<inter> set (positions n i_from) = {}"
    "set (drop k ?R) \<inter> set (positions n i_from) = {}"
    by (auto dest: in_set_takeD in_set_dropD)
  ultimately show "distinct (positions n idx)" using d unfolding f by auto
  have "set (take k ?R) \<union> set (drop k ?R) = set ?R"
    by (metis append_take_drop_id set_append)
  then have "set (positions n idx) = set ?R \<union> set (positions n i_from)"
    unfolding f by auto
  also have "\<dots> = {..<n}" using sub by auto
  finally show s: "set (positions n idx) = {..<n}" .
  have "length (positions n idx) = card (set (positions n idx))"
    using \<open>distinct (positions n idx)\<close> by (simp add: distinct_card)
  also have "\<dots> = n" unfolding s by simp
  finally show "length idx = n" by (simp add: positions_def)
qed

lemma reorder_result:
  assumes sq: "square_frame df n"
    and m: "move_index_to i_from i_to n = Inr idx"
  shows "df_reorder_matrix_basis df i_from i_to =
     Inr \<lparr>df_values = map (\<lambda>i. map (\<lambda>j. df_values df ! i ! j) (positions n idx)) (positions n idx),
          df_columns = map (\<lambda>i. df_columns df ! i) (positions n idx),
          df_index = map (\<lambda>i. df_index df ! i) (positions n idx)\<rparr>"
proof -
  have v: "list_all (valid_index n) idx" by (rule move_index_to_valid [OF m])
  from sq have l: "length (df_values df) = n" "list_all (\<lambda>row. length row = n) (df_values df)"
    "length (df_columns df) = n" "length (df_index df) = n"
    by (simp_all add: square_frame_def)
  have a: "take_ix (df_values df) idx idx =
      Inr (map (\<lambda>i. map (\<lambda>j. df_values df ! wrap_index n i ! wrap_index n j) idx) idx)"
    using take_ix_valid [of "df_values df" idx n idx] v l by simp
  have c: "take_idx (df_columns df) idx = Inr (map (\<lambda>i. df_columns df ! wrap_index n i) idx)"
    using take_idx_valid [of "df_columns df" idx] v l by simp
  have r: "take_idx (df_index df) idx = Inr (map (\<lambda>i. df_index df ! wrap_index n i) idx)"
    using take_idx_valid [of "df_index df" idx] v l by simp
  show ?thesis
    by (simp add: df_reorder_matrix_basis_def Let_def l m a c r and_then_def positions_def comp_def)
qed

lemma reorder_square:
  assumes "square_frame df n" and "move_index_to i_from i_to n = Inr idx" and "length idx = n"
    and "df_reorder_matrix_basis df i_from i_to = Inr df1"
  shows "square_frame df1 n"
  using assms(4) unfolding reorder_result [OF assms(1,2)]
  by (auto simp: square_frame_def positions_def assms(3) list_all_iff)

lemma square_values_rebuild:
  assumes "square_frame df n"
  shows "map (\<lambda>i. map (\<lambda>j. df_values df ! i ! j) [0..<n]) [0..<n] = df_values df"
proof -
  from assms have l: "length (df_values df) = n"
    and r: "\<And>i. i < n \<Longrightarrow> length (df_values df ! i) = n"
    by (simp_all add: square_frame_def list_all_length)
  have "map (\<lambda>i. map (\<lambda>j. df_values df ! i ! j) [0..<n]) [0..<n] = map (\<lambda>i. df_values df ! i) [0..<n]"
  proof (rule map_cong [OF refl])
    fix i assume "i \<in> set [0..<n]"
    then have "length (df_values df ! i) = n" using r by simp
    then show "map (\<lambda>j. df_values df ! i ! j) [0..<n] = df_values df ! i"
      by (metis map_nth)
  qed
  also have "\<dots> = df_values df" using l by (metis map_nth)
  finally show ?thesis .
qed

lemma reorder_twice:
  assumes sq: "square_frame df n"
    and m: "move_index_to i_from i_to n = Inr idx"
    and len: "length idx = n"
    and m': "move_index_to i_from' i_to' n = Inr idx'"
    and u: "undoes n idx idx'"
    and r: "df_reorder_matrix_basis df i_from i_to = Inr df1"
  shows "df_reorder_matrix_basis df1 i_from' i_to' = Inr df"
proof -
  let ?p = "positions n idx" and ?q = "positions n idx'"
  have sq1: "square_frame df1 n" by (rule reorder_square [OF sq m len r])
  have lp: "length ?p = n" by (simp add: positions_def len)
  have q: "\<And>a. a \<in> set ?q \<Longrightarrow> a < n"
    using move_index_to_valid [OF m']
    by (auto simp: positions_def list_all_iff wrap_index_less)
  have c: "map (\<lambda>j. ?p ! j) ?q = [0..<n]" using u by (simp add: undoes_def)
  have d1: "df1 = \<lparr>df_values = map (\<lambda>i. map (\<lambda>j. df_values df ! i ! j) ?p) ?p,
          df_columns = map (\<lambda>i. df_columns df ! i) ?p,
          df_index = map (\<lambda>i. df_index df ! i) ?p\<rparr>"
    using r unfolding reorder_result [OF sq m] by simp
  have through: "map (\<lambda>a. map f ?p ! a) ?q = map f [0..<n]" for f :: "nat \<Rightarrow> 'c"
  proof -
    have "map (\<lambda>a. map f ?p ! a) ?q = map (\<lambda>a. f (?p ! a)) ?q"
      by (rule map_cong [OF refl]) (simp add: q lp)
    also have "\<dots> = map f (map (\<lambda>j. ?p ! j) ?q)" by (simp add: comp_def)
    finally show ?thesis by (simp only: c)
  qed
  have v: "map (\<lambda>a. map (\<lambda>b. df_values df1 ! a ! b) ?q) ?q = df_values df"
  proof -
    have "map (\<lambda>a. map (\<lambda>b. df_values df1 ! a ! b) ?q) ?q
        = map (\<lambda>a. map (\<lambda>j. df_values df ! (?p ! a) ! j) [0..<n]) ?q"
    proof (rule map_cong [OF refl])
      fix a assume "a \<in> set ?q"
      then have "a < n" by (rule q)
      then have "df_values df1 ! a = map (\<lambda>j. df_values df ! (?p ! a) ! j) ?p"
        by (simp add: d1 lp)
      then show "map (\<lambda>b. df_values df1 ! a ! b) ?q = map (\<lambda>j. df_values df ! (?p ! a) ! j) [0..<n]"
        using through [of "\<lambda>j. df_values df ! (?p ! a) ! j"] by simp
    qed
    also have "\<dots> = map (\<lambda>i. map (\<lambda>j. df_values df ! i ! j) [0..<n]) (map (\<lambda>j. ?p ! j) ?q)"
      by (simp add: comp_def)
    also have "\<dots> = df_values df" by (simp only: c square_values_rebuild [OF sq])
    finally show ?thesis .
  qed
  have cl: "map (\<lambda>a. df_columns df1 ! a) ?q = df_columns df"
  proof -
    have "map (\<lambda>a. df_columns df1 ! a) ?q = map (\<lambda>i. df_columns df ! i) [0..<n]"
      using through [of "\<lambda>i. df_columns df ! i"] by (simp add: d1)
    also have "\<dots> = df_columns df" using sq by (metis map_nth square_frame_def)
    finally show ?thesis .
  qed
  have ix: "map (\<lambda>a. df_index df1 ! a) ?q = df_index df"
  proof -
    have "map (\<lambda>a. df_index df1 ! a) ?q = map (\<lambda>i. df_index df ! i) [0..<n]"
      using through [of "\<lambda>i. df_index df ! i"] by (simp add: d1)
    also have "\<dots> = df_index df" using sq by (metis map_nth square_frame_def)
    finally show ?thesis .
  qed
  show ?thesis
    unfolding reorder_result [OF sq1 m'] by (simp add: v cl ix)
qed

lemma inverse_index_props:
  assumes d: "distinct (positions n idx)" and s: "set (positions n idx) = {..<n}"
  shows "positions n (inverse_index n idx) =
           map (\<lambda>k. length (takeWhile (\<lambda>p. p \<noteq> k) (positions n idx))) [0..<n]"
    and "undoes n idx (inverse_index n idx)"
    and "move_index_to (inverse_index n idx) 0 n = Inr (inverse_index n idx)"
proof -
  let ?p = "positions n idx"
  let ?pos = "\<lambda>k. length (takeWhile (\<lambda>p. p \<noteq> k) ?p)"
  have lp: "length ?p = n" using d s by (metis card_lessThan distinct_card)
  have pos: "?pos k < n \<and> ?p ! ?pos k = k" if "k < n" for k
  proof -
    from that have "k \<in> set ?p" by (simp add: s)
    then have "takeWhile (\<lambda>p. p \<noteq> k) ?p \<noteq> ?p" by (auto simp: takeWhile_eq_all_conv)
    then have "?pos k \<noteq> length ?p" by (metis takeWhile_eq_take take_all order_refl)
    then have "?pos k < length ?p" using length_takeWhile_le [of "\<lambda>p. p \<noteq> k" ?p] by simp
    moreover from this have "?p ! ?pos k = k" using nth_length_takeWhile [of "\<lambda>p. p \<noteq> k" ?p] by simp
    ultimately show ?thesis by (simp add: lp)
  qed
  show P: "positions n (inverse_index n idx) = map ?pos [0..<n]"
    by (simp add: inverse_index_def positions_def [of n "map _ _"] comp_def)
  have "map (\<lambda>j. ?p ! j) (map ?pos [0..<n]) = map (\<lambda>k. k) [0..<n]"
    unfolding map_map comp_def by (rule map_cong [OF refl]) (simp add: pos)
  then show "undoes n idx (inverse_index n idx)"
    by (simp add: undoes_def P)
  have inj: "inj_on ?pos {..<n}"
    by (rule inj_onI) (metis lessThan_iff pos)
  have "?pos ` {..<n} \<subseteq> {..<n}" using pos by auto
  moreover have "card (?pos ` {..<n}) = card {..<n}" using inj by (rule card_image)
  ultimately have img: "?pos ` {..<n} = {..<n}" by (simp add: card_subset_eq)
  have v: "list_all (valid_index n) (inverse_index n idx)"
    by (simp add: inverse_index_def list_all_iff pos)
  have "set (positions n (inverse_index n idx)) = {..<n}"
    unfolding P using img by (simp add: atLeast0LessThan)
  then have e: "filter (\<lambda>k. k \<notin> set (positions n (inverse_index n idx))) [0..<n] = []"
    by (simp add: filter_empty_conv)
  show "move_index_to (inverse_index n idx) 0 n = Inr (inverse_index n idx)"
    by (simp add: move_index_to_def np_delete_arange v e and_then_def np_insert_def)
qed


lemma length_remaining:
  assumes "list_all (valid_index n) i_from" and "distinct (positions n i_from)"
  shows "length (filter (\<lambda>k. k \<notin> set (positions n i_from)) [0..<n]) = n - length i_from"
proof -
  let ?P = "positions n i_from"
  have sub: "set ?P \<subseteq> {..<n}"
    using assms(1) by (auto simp: positions_def list_all_iff wrap_index_less)
  have "length (filter (\<lambda>k. k \<in> set ?P) [0..<n]) = card ({k. k \<in> set ?P} \<inter> set [0..<n])"
    by (rule distinct_length_filter) simp
  also have "{k. k \<in> set ?P} \<inter> set [0..<n] = set ?P" using sub by auto
  also have "card (set ?P) = length i_from"
    using distinct_card [OF assms(2)] by (simp add: positions_def)
  finally have "length (filter (\<lambda>k. k \<in> set ?P) [0..<n]) = length i_from" .
  moreover have "length (filter (\<lambda>k. k \<in> set ?P) [0..<n]) +
      length (filter (\<lambda>k. \<not> k \<in> set ?P) [0..<n]) = length [0..<n]"
    by (rule sum_length_filter_compl)
  ultimately show ?thesis by simp
qed

lemma move_index_to_succeeds:
  assumes "list_all (valid_index n) i_from" and "distinct (positions n i_from)"
    and "- (int n - int (length i_from)) \<le> i_to" and "i_to \<le> int n - int (length i_from)"
  shows "\<exists>idx. move_index_to i_from i_to n = Inr idx"
proof -
  have "length i_from \<le> n" using assms(3,4) by linarith
  then show ?thesis
    using assms length_remaining [OF assms(1,2)]
    by (simp add: move_index_to_def np_delete_arange and_then_def np_insert_def Let_def)
qed

text \<open>
  Claim C1 (round-trip law of the basis reorderer). For every square labelled matrix of
  side \<open>n\<close>, every list \<open>i_from\<close> of valid source indices that select distinct positions
  and every destination \<open>i_to\<close> that \<^verbatim>\<open>np.insert\<close> accepts, \<open>df_reorder_matrix_basis\<close>
  returns a frame \<open>df1\<close>; applying it again to \<open>df1\<close> with any arguments whose index
  array is the inverse permutation of the first returns the original frame: the same
  entries and the same row and column labels in the same order. Such arguments always
  exist: the inverse permutation itself as source list, with destination 0.
\<close>

theorem reorder_round_trip:
  assumes sq: "square_frame df n"
    and v: "list_all (valid_index n) i_from"
    and d: "distinct (positions n i_from)"
    and lo: "- (int n - int (length i_from)) \<le> i_to"
    and hi: "i_to \<le> int n - int (length i_from)"
  shows "\<exists>idx df1.
      move_index_to i_from i_to n = Inr idx \<and>
      df_reorder_matrix_basis df i_from i_to = Inr df1 \<and>
      (\<forall>i_from' i_to' idx'.
          move_index_to i_from' i_to' n = Inr idx' \<and> undoes n idx idx' \<longrightarrow>
          df_reorder_matrix_basis df1 i_from' i_to' = Inr df) \<and>
      undoes n idx (inverse_index n idx) \<and>
      df_reorder_matrix_basis df1 (inverse_index n idx) 0 = Inr df"
proof -
  from move_index_to_succeeds [OF v d lo hi] obtain idx
    where m: "move_index_to i_from i_to n = Inr idx" by blast
  note perm = move_index_to_perm [OF m d]
  define df1 where "df1 = \<lparr>df_values = map (\<lambda>i. map (\<lambda>j. df_values df ! i ! j) (positions n idx)) (positions n idx),
          df_columns = map (\<lambda>i. df_columns df ! i) (positions n idx),
          df_index = map (\<lambda>i. df_index df ! i) (positions n idx)\<rparr>"
  have r: "df_reorder_matrix_basis df i_from i_to = Inr df1"
    unfolding df1_def by (rule reorder_result [OF sq m])
  have again: "df_reorder_matrix_basis df1 i_from' i_to' = Inr df"
    if "move_index_to i_from' i_to' n = Inr idx'" and "undoes n idx idx'"
    for i_from' i_to' idx'
    by (rule reorder_twice [OF sq m perm(3) that r])
  note inv = inverse_index_props [OF perm(1,2)]
  have "df_reorder_matrix_basis df1 (inverse_index n idx) 0 = Inr df"
    by (rule again [OF inv(3) inv(2)])
  with m r again inv(2) show ?thesis by blast
qed

theorem reorder_round_trip_witness:
  "square_frame \<lparr>df_values = [[1, 2, 3], [4, 5, 6], [7, 8, 9 :: int]],
        df_columns = [''a'', ''b'', ''c''], df_index = [''a'', ''b'', ''c'']\<rparr> 3 \<and>
   list_all (valid_index 3) [0] \<and> distinct (positions 3 [0]) \<and>
   - (int 3 - int (length [0 :: int])) \<le> 2 \<and> 2 \<le> int 3 - int (length [0 :: int]) \<and>
   move_index_to [0] 2 3 = Inr [1, 2, 0] \<and>
   move_index_to [2] 0 3 = Inr [2, 0, 1] \<and>
   (\<exists>df1. df_reorder_matrix_basis \<lparr>df_values = [[1, 2, 3], [4, 5, 6], [7, 8, 9 :: int]],
        df_columns = [''a'', ''b'', ''c''], df_index = [''a'', ''b'', ''c'']\<rparr> [0] 2 = Inr df1 \<and>
      df_reorder_matrix_basis df1 [2] 0 =
        Inr \<lparr>df_values = [[1, 2, 3], [4, 5, 6], [7, 8, 9 :: int]],
        df_columns = [''a'', ''b'', ''c''], df_index = [''a'', ''b'', ''c'']\<rparr>)"
proof -
  let ?df = "\<lparr>df_values = [[1, 2, 3], [4, 5, 6], [7, 8, 9 :: int]],
        df_columns = [''a'', ''b'', ''c''], df_index = [''a'', ''b'', ''c'']\<rparr>"
  have h1: "square_frame ?df 3" by (simp add: square_frame_def)
  have h2: "list_all (valid_index 3) [0]" by (simp add: valid_index_def)
  have h3: "distinct (positions 3 [0])" by (simp add: positions_def)
  have h4: "- (int 3 - int (length [0 :: int])) \<le> 2" by simp
  have h5: "2 \<le> int 3 - int (length [0 :: int])" by simp
  have m1: "move_index_to [0] 2 3 = Inr [1, 2, 0]"
    by (simp add: move_index_to_def np_delete_def np_arange_def np_insert_def and_then_def
        valid_index_def wrap_index_def upt_rec)
  have m2: "move_index_to [2] 0 3 = Inr [2, 0, 1]"
    by (simp add: move_index_to_def np_delete_def np_arange_def np_insert_def and_then_def
        valid_index_def wrap_index_def upt_rec)
  have u: "undoes 3 [1, 2, 0] [2, 0, 1]"
    by (simp add: undoes_def positions_def wrap_index_def upt_rec)
  from reorder_round_trip [OF h1 h2 h3 h4 h5] m1 m2 u
  have "\<exists>df1. df_reorder_matrix_basis ?df [0] 2 = Inr df1 \<and>
      df_reorder_matrix_basis df1 [2] 0 = Inr ?df"
    by (metis sum.inject(2))
  with h1 h2 h3 h4 h5 m1 m2 show ?thesis by blast
qed

section \<open>The basis reorderer: no mutation of the input\<close>

lemma and_then_Inr_iff:
  "and_then m f = Inr y \<longleftrightarrow> (\<exists>x. m = Inr x \<and> f x = Inr y)"
  by (cases m) (simp_all add: and_then_def)

lemma deref_append: "r < length s \<Longrightarrow> deref (s @ t) r = deref s r"
  by (simp add: deref_def nth_append)

lemma deref_Inr_D: "deref s r = Inr x \<Longrightarrow> r < length s \<and> s ! r = x"
  by (auto simp: deref_def split: if_splits)

lemma deref_new [simp]: "deref (s @ x # t) (length s) = Inr x"
  by (simp add: deref_def)

lemma move_index_to_st_eq:
  "move_index_to_st s i_from i_to len =
     and_then (move_index_to i_from i_to len) (\<lambda>idx.
       Inr (Suc (Suc (length s)),
            s @ [NdArray1 (np_arange len)] @
              (case np_delete (np_arange len) i_from of Inr ys \<Rightarrow> [NdArray1 ys] | Inl _ \<Rightarrow> []) @
              [NdArray1 idx]))"
  by (auto simp: move_index_to_st_def move_index_to_def new_object_def as_int_array_def
      and_then_def deref_def nth_append split: sum.splits)


lemma closed_frame:
  assumes "closed_store s" and "as_frame s df = Inr (v, c, i)"
  shows "df < length s" "v < length s" "c < length s" "i < length s"
proof -
  from assms(2) obtain x where x: "deref s df = Inr x" "(case x of PdFrame v c i \<Rightarrow> Inr (v, c, i) | _ \<Rightarrow> Inl TypeError) = Inr (v, c, i)"
    by (auto simp: as_frame_def and_then_Inr_iff)
  from x(2) have "x = PdFrame v c i" by (cases x) simp_all
  with x(1) have d: "df < length s" "s ! df = PdFrame v c i"
    by (auto dest: deref_Inr_D)
  from assms(1) d show "df < length s" "v < length s" "c < length s" "i < length s"
    by (auto simp: closed_store_def list_all_length)
qed

lemma df_reorder_st_eq:
  assumes "closed_store s"
  shows "df_reorder_matrix_basis_st s df i_from i_to =
     and_then (as_frame s df) (\<lambda>(v, c, i).
     and_then (as_block s v) (\<lambda>arr.
     and_then (move_index_to i_from i_to (length arr)) (\<lambda>idx.
     and_then (take_ix arr idx idx) (\<lambda>arr'.
     and_then (as_labels s c) (\<lambda>cols.
     and_then (take_idx cols idx) (\<lambda>cols'.
     and_then (as_labels s i) (\<lambda>rows.
     and_then (take_idx rows idx) (\<lambda>rows'.
     Inr (length s + 6,
          s @ [NdArray1 (np_arange (length arr))] @
              (case np_delete (np_arange (length arr)) i_from of Inr ys \<Rightarrow> [NdArray1 ys] | Inl _ \<Rightarrow> []) @
              [NdArray1 idx, NdArray2 arr', PdIndex cols', PdIndex rows',
               PdFrame (length s + 3) (length s + 4) (length s + 5)])))))))))"
proof (cases "as_frame s df")
  case (Inl e)
  then show ?thesis by (simp add: df_reorder_matrix_basis_st_def and_then_def)
next
  case (Inr f)
  obtain v c i where f: "f = (v, c, i)" by (cases f)
  note lt = closed_frame [OF assms Inr [unfolded f]]
  have ext: "as_block (s @ t) v = as_block s v" "as_labels (s @ t) c = as_labels s c"
    "as_labels (s @ t) i = as_labels s i" for t
    using lt by (simp_all add: as_block_def as_labels_def deref_append)
  show ?thesis
    unfolding df_reorder_matrix_basis_st_def move_index_to_st_eq Inr f
    apply (simp add: and_then_def new_object_def split: sum.splits)
    apply (auto simp: move_index_to_def and_then_def ext as_int_array_def deref_def nth_append
        simp flip: append_assoc split: sum.splits)
    done
qed


lemma frame_at_append:
  assumes "closed_store s" and "frame_at s df = Inr d"
  shows "frame_at (s @ t) df = Inr d"
proof -
  from assms(2) obtain v c i where f: "as_frame s df = Inr (v, c, i)"
    by (auto simp: frame_at_def and_then_Inr_iff)
  note lt = closed_frame [OF assms(1) f]
  have ext: "as_frame (s @ t) df = Inr (v, c, i)" "as_block (s @ t) v = as_block s v"
    "as_labels (s @ t) c = as_labels s c" "as_labels (s @ t) i = as_labels s i"
    using lt f by (simp_all add: as_frame_def as_block_def as_labels_def deref_append)
  have "frame_at (s @ t) df = frame_at s df"
    by (simp add: frame_at_def ext f and_then_def cong: sum.case_cong)
  with assms(2) show ?thesis by simp
qed

text \<open>
  Claim C9 (purity of the basis reorderer). In a closed store, whenever
  \<open>df_reorder_matrix_basis\<close> returns, every object that existed before the call is
  unchanged (the store is only extended), so the input frame reads as before: same
  values, same row labels, same column labels. The result is a new frame object whose
  block and label objects are new as well, and its contents are those the value-level
  function computes from the input frame.
\<close>

theorem reorder_does_not_mutate:
  assumes cl: "closed_store s"
    and run: "df_reorder_matrix_basis_st s df i_from i_to = Inr (df', s')"
  shows "take (length s) s' = s \<and>
     frame_at s' df = frame_at s df \<and>
     length s \<le> df' \<and>
     (\<exists>v c i. as_frame s' df' = Inr (v, c, i) \<and> length s \<le> v \<and> length s \<le> c \<and> length s \<le> i) \<and>
     (\<exists>d d'. frame_at s df = Inr d \<and> df_reorder_matrix_basis d i_from i_to = Inr d' \<and>
        frame_at s' df' = Inr d') \<and>
     closed_store s'"
proof -
  from run [unfolded df_reorder_st_eq [OF cl]] obtain v c i arr idx arr' cols cols' rows rows'
    where f: "as_frame s df = Inr (v, c, i)" and b: "as_block s v = Inr arr"
      and m: "move_index_to i_from i_to (length arr) = Inr idx"
      and a': "take_ix arr idx idx = Inr arr'"
      and c: "as_labels s c = Inr cols" and c': "take_idx cols idx = Inr cols'"
      and r: "as_labels s i = Inr rows" and r': "take_idx rows idx = Inr rows'"
      and res: "df' = length s + 6"
        "s' = s @ [NdArray1 (np_arange (length arr))] @
              (case np_delete (np_arange (length arr)) i_from of Inr ys \<Rightarrow> [NdArray1 ys] | Inl _ \<Rightarrow> []) @
              [NdArray1 idx, NdArray2 arr', PdIndex cols', PdIndex rows',
               PdFrame (length s + 3) (length s + 4) (length s + 5)]"
    by (auto simp: and_then_Inr_iff)
  from m obtain ys where ys: "np_delete (np_arange (length arr)) i_from = Inr ys"
    by (auto simp: move_index_to_def and_then_Inr_iff)
  let ?d = "\<lparr>df_values = arr, df_columns = cols, df_index = rows\<rparr>"
  let ?d' = "\<lparr>df_values = arr', df_columns = cols', df_index = rows'\<rparr>"
  have s': "s' = s @ [NdArray1 (np_arange (length arr)), NdArray1 ys, NdArray1 idx, NdArray2 arr',
      PdIndex cols', PdIndex rows', PdFrame (length s + 3) (length s + 4) (length s + 5)]"
    by (simp add: res ys)
  have d: "frame_at s df = Inr ?d" by (simp add: frame_at_def f b c r and_then_def)
  have 1: "take (length s) s' = s" by (simp add: s')
  have 2: "frame_at s' df = frame_at s df"
    unfolding s' d by (rule frame_at_append [OF cl d])
  have 3: "as_frame s' df' = Inr (length s + 3, length s + 4, length s + 5)"
    by (simp add: s' res as_frame_def deref_def and_then_def nth_append)
  have 4: "df_reorder_matrix_basis ?d i_from i_to = Inr ?d'"
    by (simp add: df_reorder_matrix_basis_def m a' c' r' and_then_def)
  have 5: "frame_at s' df' = Inr ?d'"
    by (simp add: frame_at_def 3 and_then_def)
       (simp add: s' as_block_def as_labels_def deref_def and_then_def nth_append)
  have 6: "closed_store s'"
    using cl unfolding s' closed_store_def
    by (auto simp: list_all_iff split: pyobj.splits)
  from 1 2 3 4 5 6 d res(1) show ?thesis by auto
qed


lemma reorder_st_returns:
  assumes cl: "closed_store s" and d: "frame_at s df = Inr d"
    and p: "df_reorder_matrix_basis d i_from i_to = Inr d'"
  shows "\<exists>df' s'. df_reorder_matrix_basis_st s df i_from i_to = Inr (df', s')"
proof -
  from d obtain v c i arr cols rows where f: "as_frame s df = Inr (v, c, i)"
    and b: "as_block s v = Inr arr" and c: "as_labels s c = Inr cols"
    and r: "as_labels s i = Inr rows"
    and d': "d = \<lparr>df_values = arr, df_columns = cols, df_index = rows\<rparr>"
    by (auto simp: frame_at_def and_then_Inr_iff)
  from p show ?thesis
    unfolding df_reorder_st_eq [OF cl] d'
    by (auto simp: df_reorder_matrix_basis_def f b c r and_then_Inr_iff)
qed

theorem reorder_does_not_mutate_witness:
  "closed_store [NdArray2 [[1, 2], [3, 4 :: int]], PdIndex [''a'', ''b''], PdIndex [''a'', ''b''],
       PdFrame 0 1 2] \<and>
   (\<exists>df' s'. df_reorder_matrix_basis_st
       [NdArray2 [[1, 2], [3, 4 :: int]], PdIndex [''a'', ''b''], PdIndex [''a'', ''b''],
        PdFrame 0 1 2] 3 [0] 1 = Inr (df', s') \<and>
      take (length [NdArray2 [[1, 2], [3, 4 :: int]], PdIndex [''a'', ''b''], PdIndex [''a'', ''b''],
        PdFrame 0 1 2]) s' =
        [NdArray2 [[1, 2], [3, 4 :: int]], PdIndex [''a'', ''b''], PdIndex [''a'', ''b''],
        PdFrame 0 1 2] \<and>
      length [NdArray2 [[1, 2], [3, 4 :: int]], PdIndex [''a'', ''b''], PdIndex [''a'', ''b''],
        PdFrame 0 1 2] \<le> df' \<and>
      frame_at s' df' = Inr \<lparr>df_values = [[4, 3], [2, 1]], df_columns = [''b'', ''a''],
        df_index = [''b'', ''a'']\<rparr>)"
proof -
  let ?s = "[NdArray2 [[1, 2], [3, 4 :: int]], PdIndex [''a'', ''b''], PdIndex [''a'', ''b''],
       PdFrame 0 1 2] :: (int, string) store"
  let ?d = "\<lparr>df_values = [[1, 2], [3, 4 :: int]], df_columns = [''a'', ''b''],
        df_index = [''a'', ''b'']\<rparr>"
  let ?d' = "\<lparr>df_values = [[4, 3], [2, 1 :: int]], df_columns = [''b'', ''a''],
        df_index = [''b'', ''a'']\<rparr>"
  have cl: "closed_store ?s" by (simp add: closed_store_def)
  have fa: "frame_at ?s 3 = Inr ?d"
    by (simp add: frame_at_def as_frame_def as_block_def as_labels_def deref_def and_then_def)
  have p: "df_reorder_matrix_basis ?d [0] 1 = Inr ?d'"
    by code_simp
  from reorder_st_returns [OF cl fa p] obtain df' s'
    where run: "df_reorder_matrix_basis_st ?s 3 [0] 1 = Inr (df', s')" by blast
  note main = reorder_does_not_mutate [OF cl run]
  from main have t: "take (length ?s) s' = ?s" and l: "length ?s \<le> df'" by blast+
  from main obtain d d' where "frame_at ?s 3 = Inr d"
    and "df_reorder_matrix_basis d [0] 1 = Inr d'" and r: "frame_at s' df' = Inr d'"
    by blast
  with fa p have "d' = ?d'" by simp
  with r have "frame_at s' df' = Inr ?d'" by simp
  with cl run t l show ?thesis by blast
qed

section \<open>The loaders: markers and matches\<close>

lemma split_parts_nonempty: "split_parts sep text \<noteq> []"
  by (induction sep "text" rule: split_parts.induct) (auto split: list.splits)

lemma join_split: "sep \<noteq> [] \<Longrightarrow> str_join sep (split_parts sep text) = text"
proof (induction sep "text" rule: split_parts.induct)
  case (1 sep)
  then show ?case by simp
next
  case (2 sep c cs)
  show ?case
  proof (cases "prefix sep (c # cs)")
    case True
    then obtain rest where r: "c # cs = sep @ rest" by (auto simp: prefix_def)
    then have d: "drop (length sep) (c # cs) = rest" by (metis append_eq_conv_conj)
    obtain p ps where ps: "split_parts sep rest = p # ps"
      using split_parts_nonempty [of sep rest] by (cases "split_parts sep rest") auto
    from 2(1) [OF conjI [OF 2(3) True]] 2(3) have "str_join sep (split_parts sep rest) = rest"
      by (simp add: d)
    moreover have "split_parts sep (c # cs) = [] # split_parts sep rest"
      using True 2(3) by (simp only: split_parts.simps d simp_thms if_True)
    ultimately show ?thesis by (simp add: ps r)
  next
    case False
    obtain p ps where ps: "split_parts sep cs = p # ps"
      using split_parts_nonempty [of sep cs] by (cases "split_parts sep cs") auto
    from 2(2) False 2(3) have "str_join sep (split_parts sep cs) = cs" by simp
    then have "str_join sep ((c # p) # ps) = c # cs"
      unfolding ps by (cases ps) auto
    then show ?thesis using False by (simp add: ps)
  qed
qed

lemma proper_suffix_tl:
  assumes "suffix (a # v) sep"
  shows "suffix v sep" and "v \<noteq> sep"
proof -
  show "suffix v sep" using assms by (rule suffix_ConsD)
  have "length (a # v) \<le> length sep" using assms by (rule suffix_length_le)
  then show "v \<noteq> sep" by auto
qed

lemma occurrences_skip:
  assumes u: "unbordered sep"
  shows "suffix v sep \<Longrightarrow> v \<noteq> sep \<Longrightarrow> occurrences sep (v @ rest) = occurrences sep rest"
proof (induction v)
  case Nil
  then show ?case by simp
next
  case (Cons a v)
  note t = proper_suffix_tl [OF Cons.prems(1)]
  have np: "\<not> prefix (a # v) sep"
    using u Cons.prems by (auto simp: unbordered_def list_all_iff)
  have "\<not> prefix sep ((a # v) @ rest)"
  proof
    assume p: "prefix sep ((a # v) @ rest)"
    have "length (a # v) \<le> length sep" using Cons.prems(1) by (rule suffix_length_le)
    with p have "prefix (a # v) sep"
      by (metis prefix_length_prefix prefixI)
    with np show False ..
  qed
  then show ?case using Cons.IH [OF t] by simp
qed

lemma occurrences_prefix:
  assumes u: "unbordered sep" and ne: "sep \<noteq> []"
  shows "occurrences sep (sep @ rest) = Suc (occurrences sep rest)"
proof -
  from ne obtain a v where sep: "sep = a # v" by (cases sep) auto
  have "suffix v sep" "v \<noteq> sep" by (simp_all add: sep suffix_ConsI)
  from occurrences_skip [OF u this, of rest] show ?thesis
    by (simp add: sep)
qed

lemma length_split_parts:
  "unbordered sep \<Longrightarrow> sep \<noteq> [] \<Longrightarrow> length (split_parts sep t) = Suc (occurrences sep t)"
proof (induction sep t rule: split_parts.induct)
  case (1 sep)
  then show ?case by simp
next
  case (2 sep c cs)
  note u = 2(3) and ne = 2(4)
  show ?case
  proof (cases "prefix sep (c # cs)")
    case True
    then obtain rest where r: "c # cs = sep @ rest" by (auto simp: prefix_def)
    then have d: "drop (length sep) (c # cs) = rest" by (metis append_eq_conv_conj)
    have s: "split_parts sep (c # cs) = [] # split_parts sep rest"
      using True ne by (simp only: split_parts.simps d simp_thms if_True)
    have "length (split_parts sep rest) = Suc (occurrences sep rest)"
      using 2(1) [OF conjI [OF ne True] u ne] by (simp add: d)
    moreover have "occurrences sep (c # cs) = Suc (occurrences sep rest)"
      unfolding r by (rule occurrences_prefix [OF u ne])
    ultimately show ?thesis
      by (simp only: s list.size length_Cons)
  next
    case False
    obtain p ps where ps: "split_parts sep cs = p # ps"
      using split_parts_nonempty [of sep cs] by (cases "split_parts sep cs") auto
    from 2(2) False u ne have "length (split_parts sep cs) = Suc (occurrences sep cs)" by simp
    then show ?thesis using False by (simp add: ps)
  qed
qed

lemma marker_unbordered: "unbordered ''Capacitance Matrix''"
  unfolding unbordered_def by simp

lemma split_two:
  assumes "sep \<noteq> []" and "length (split_parts sep t) = 2"
  shows "t = split_parts sep t ! 0 @ sep @ split_parts sep t ! 1"
proof -
  from assms(2) obtain p q where pq: "split_parts sep t = [p, q]"
    by (cases "split_parts sep t"; cases "tl (split_parts sep t)") auto
  from join_split [OF assms(1), of t] show ?thesis by (simp add: pq)
qed

text \<open>
  Claim C8 (loader marker validation). \<open>readin_q3d_matrix\<close> splits the text of the file
  on the marker \<^verbatim>\<open>Capacitance Matrix\<close>. If the marker does not occur exactly once (not at
  all, or more than once), the call raises the assertion's error; if it occurs exactly
  once, the text is \<open>before @ marker @ after\<close> and the call goes on to parse the
  capacitance block and the optional conductance block of \<open>after\<close>.
\<close>

theorem capacitance_marker_validation:
  assumes "fs path = Some t"
  shows "(occurrences ''Capacitance Matrix'' t \<noteq> 1 \<longrightarrow>
            readin_q3d_matrix read_csv fs path delim_whitespace =
              Inl (AssertionError ''Copuld not split text to `Capacitance Matrix`'')) \<and>
         (occurrences ''Capacitance Matrix'' t = 1 \<longrightarrow>
            (\<exists>before after. t = before @ ''Capacitance Matrix'' @ after \<and>
               readin_q3d_matrix read_csv fs path delim_whitespace =
                 parse_sections read_csv delim_whitespace t after))"
proof -
  let ?m = "''Capacitance Matrix''"
  have len: "length (split_parts ?m t) = Suc (occurrences ?m t)"
    by (rule length_split_parts [OF marker_unbordered]) simp
  have run: "readin_q3d_matrix read_csv fs path delim_whitespace =
      (if length (split_parts ?m t) \<noteq> 2
       then Inl (AssertionError ''Copuld not split text to `Capacitance Matrix`'')
       else parse_sections read_csv delim_whitespace t (split_parts ?m t ! 1))"
    by (simp add: readin_q3d_matrix_def read_text_def assms and_then_def str_split_def)
  show ?thesis
  proof (intro conjI impI)
    assume "occurrences ?m t \<noteq> 1"
    then show "readin_q3d_matrix read_csv fs path delim_whitespace =
              Inl (AssertionError ''Copuld not split text to `Capacitance Matrix`'')"
      unfolding run len by simp
  next
    assume "occurrences ?m t = 1"
    then have two: "length (split_parts ?m t) = 2" unfolding len by simp
    have "t = split_parts ?m t ! 0 @ ?m @ split_parts ?m t ! 1"
      by (rule split_two [OF _ two]) simp
    moreover have "readin_q3d_matrix read_csv fs path delim_whitespace =
        parse_sections read_csv delim_whitespace t (split_parts ?m t ! 1)"
      unfolding run using two by simp
    ultimately show "\<exists>before after. t = before @ ?m @ after \<and>
               readin_q3d_matrix read_csv fs path delim_whitespace =
                 parse_sections read_csv delim_whitespace t after"
      by blast
  qed
qed

theorem capacitance_marker_validation_witness:
  "[''f'' \<mapsto> ''C Units:farad, no marker''] ''f'' = Some ''C Units:farad, no marker'' \<and>
   occurrences ''Capacitance Matrix'' ''C Units:farad, no marker'' \<noteq> 1 \<and>
   readin_q3d_matrix (\<lambda>d s. Inr \<lparr>df_values = [[1 :: int]], df_columns = [s], df_index = [s]\<rparr>)
       [''f'' \<mapsto> ''C Units:farad, no marker''] ''f'' True =
     Inl (AssertionError ''Copuld not split text to `Capacitance Matrix`'') \<and>
   [''g'' \<mapsto> ''a Capacitance Matrix b''] ''g'' = Some ''a Capacitance Matrix b'' \<and>
   occurrences ''Capacitance Matrix'' ''a Capacitance Matrix b'' = 1 \<and>
   (\<exists>before after. ''a Capacitance Matrix b'' = before @ ''Capacitance Matrix'' @ after \<and>
      readin_q3d_matrix (\<lambda>d s. Inr \<lparr>df_values = [[1 :: int]], df_columns = [s], df_index = [s]\<rparr>)
          [''g'' \<mapsto> ''a Capacitance Matrix b''] ''g'' True =
        parse_sections (\<lambda>d s. Inr \<lparr>df_values = [[1 :: int]], df_columns = [s], df_index = [s]\<rparr>)
          True ''a Capacitance Matrix b'' after)"
proof -
  let ?rc = "\<lambda>(d :: bool) (s :: string). Inr \<lparr>df_values = [[1 :: int]], df_columns = [s], df_index = [s]\<rparr>
      :: error + (int, string) DataFrame"
  have f: "[''f'' \<mapsto> ''C Units:farad, no marker''] ''f'' = Some ''C Units:farad, no marker''"
    by simp
  have g: "[''g'' \<mapsto> ''a Capacitance Matrix b''] ''g'' = Some ''a Capacitance Matrix b''"
    by simp
  have o0: "occurrences ''Capacitance Matrix'' ''C Units:farad, no marker'' \<noteq> 1" by simp
  have o1: "occurrences ''Capacitance Matrix'' ''a Capacitance Matrix b'' = 1" by simp
  from capacitance_marker_validation [of "[''f'' \<mapsto> ''C Units:farad, no marker'']" "''f''" "''C Units:farad, no marker''" ?rc True, OF f] o0
  have a: "readin_q3d_matrix ?rc [''f'' \<mapsto> ''C Units:farad, no marker''] ''f'' True =
     Inl (AssertionError ''Copuld not split text to `Capacitance Matrix`'')"
    by blast
  from capacitance_marker_validation [of "[''g'' \<mapsto> ''a Capacitance Matrix b'']" "''g''" "''a Capacitance Matrix b''" ?rc True, OF g] o1
  have b: "\<exists>before after. ''a Capacitance Matrix b'' = before @ ''Capacitance Matrix'' @ after \<and>
      readin_q3d_matrix ?rc [''g'' \<mapsto> ''a Capacitance Matrix b''] ''g'' True =
        parse_sections ?rc True ''a Capacitance Matrix b'' after"
    by blast
  from f g o0 o1 a b show ?thesis by blast
qed

lemma findall_segment:
  "findall dotall lit stop t \<noteq> [] \<Longrightarrow> \<exists>pre mid post. t = pre @ lit @ mid @ stop # post"
proof (induction dotall lit stop t rule: findall.induct)
  case (1 dotall lit stop)
  then show ?case by simp
next
  case (2 dotall lit stop c cs)
  note IH = 2(1-4) and prem = 2(5)
  define rest where "rest = drop (length lit) (c # cs)"
  define grp where "grp = takeWhile (\<lambda>x. x \<noteq> stop \<and> (dotall \<or> x \<noteq> CHR 0x0A)) rest"
  have unfold: "findall dotall lit stop (c # cs) =
     (if prefix lit (c # cs)
      then (case drop (length grp) rest of
              a # tail \<Rightarrow> if a = stop then grp # findall dotall lit stop tail
                         else findall dotall lit stop cs
            | [] \<Rightarrow> findall dotall lit stop cs)
      else findall dotall lit stop cs)"
    unfolding grp_def rest_def by (simp only: findall.simps Let_def)
  have up: "\<exists>pre mid post. c # cs = pre @ lit @ mid @ stop # post"
    if "\<exists>pre mid post. cs = pre @ lit @ mid @ stop # post"
  proof -
    from that obtain pre mid post where "cs = pre @ lit @ mid @ stop # post" by blast
    then have "c # cs = (c # pre) @ lit @ mid @ stop # post" by simp
    then show ?thesis by blast
  qed
  show ?case
  proof (cases "prefix lit (c # cs)")
    case False
    from prem [unfolded unfold] False have "findall dotall lit stop cs \<noteq> []"
      by (simp only: if_False simp_thms)
    from IH(4) [OF False this] show ?thesis by (rule up)
  next
    case True
    then obtain zs where zs: "c # cs = lit @ zs" by (auto simp: prefix_def)
    then have "rest = zs" unfolding rest_def by (simp only: drop_append append_Nil drop_all order_refl diff_self_eq_0 drop_0)
    with zs have r: "c # cs = lit @ rest" by simp
    show ?thesis
    proof (cases "drop (length grp) rest")
      case Nil
      from prem [unfolded unfold] True Nil have n: "findall dotall lit stop cs \<noteq> []"
        by (simp only: if_True list.case simp_thms)
      from Nil have "drop (length (takeWhile (\<lambda>x. x \<noteq> stop \<and> (dotall \<or> x \<noteq> CHR 0x0A))
          (drop (length lit) (c # cs)))) (drop (length lit) (c # cs)) = []"
        unfolding grp_def rest_def .
      from IH(1) [OF True refl refl this n] show ?thesis by (rule up)
    next
      case (Cons a tail)
      then have Cons': "drop (length (takeWhile (\<lambda>x. x \<noteq> stop \<and> (dotall \<or> x \<noteq> CHR 0x0A))
          (drop (length lit) (c # cs)))) (drop (length lit) (c # cs)) = a # tail"
        unfolding grp_def rest_def .
      show ?thesis
      proof (cases "a = stop")
        case True
        have "rest = grp @ drop (length grp) rest"
          unfolding grp_def by (simp only: dropWhile_eq_drop [symmetric] takeWhile_dropWhile_id)
        then have "rest = grp @ stop # tail" unfolding Cons True .
        then have "c # cs = [] @ lit @ grp @ stop # tail" using r by simp
        then show ?thesis by blast
      next
        case False
        from prem [unfolded unfold] \<open>prefix lit (c # cs)\<close> Cons False
        have n: "findall dotall lit stop cs \<noteq> []"
          by (simp only: if_True if_False list.case simp_thms)
        from IH(3) [OF \<open>prefix lit (c # cs)\<close> refl refl Cons' False n]
        show ?thesis by (rule up)
      qed
    qed
  qed
qed

lemma findall_hit:
  assumes p: "prefix lit (c # cs)" and m: "stop \<in> set (drop (length lit) (c # cs))"
  shows "findall True lit stop (c # cs) \<noteq> []"
proof -
  define rest where "rest = drop (length lit) (c # cs)"
  define grp where "grp = takeWhile (\<lambda>x. x \<noteq> stop \<and> (True \<or> x \<noteq> CHR 0x0A)) rest"
  have unfold: "findall True lit stop (c # cs) =
     (case drop (length grp) rest of
        a # tail \<Rightarrow> if a = stop then grp # findall True lit stop tail
                   else findall True lit stop cs
      | [] \<Rightarrow> findall True lit stop cs)"
    unfolding grp_def rest_def using p by (simp only: findall.simps Let_def if_True)
  have g: "grp = takeWhile (\<lambda>x. x \<noteq> stop) rest" unfolding grp_def by simp
  have d: "drop (length grp) rest = dropWhile (\<lambda>x. x \<noteq> stop) rest"
    unfolding g by (simp only: dropWhile_eq_drop)
  from m have "dropWhile (\<lambda>x. x \<noteq> stop) rest \<noteq> []"
    unfolding rest_def by (auto simp: dropWhile_eq_Nil_conv)
  then obtain a tail where at: "dropWhile (\<lambda>x. x \<noteq> stop) rest = a # tail"
    by (cases "dropWhile (\<lambda>x. x \<noteq> stop) rest") auto
  then have "a = stop" using hd_dropWhile [of "\<lambda>x. x \<noteq> stop" rest] by auto
  then show ?thesis unfolding unfold d at by simp
qed

lemma findall_dotall_segment:
  "findall True lit stop (pre @ lit @ mid @ stop # post) \<noteq> []"
proof (induction pre)
  case Nil
  show ?case
  proof (cases "lit @ mid @ stop # post")
    case Nil
    then show ?thesis by simp
  next
    case (Cons c cs)
    have "prefix lit (c # cs)" unfolding Cons [symmetric] by simp
    moreover have "stop \<in> set (drop (length lit) (c # cs))" unfolding Cons [symmetric] by simp
    ultimately have "findall True lit stop (c # cs) \<noteq> []" by (rule findall_hit)
    then show ?thesis unfolding Cons [symmetric] by simp
  qed
next
  case (Cons c pre)
  let ?cs = "pre @ lit @ mid @ stop # post"
  show ?case
  proof (cases "prefix lit (c # ?cs)")
    case True
    have "length lit \<le> length (c # pre @ lit)" by simp
    then have "drop (length lit) (c # ?cs) = drop (length lit) (c # pre @ lit) @ mid @ stop # post"
      using drop_append [of "length lit" "c # pre @ lit" "mid @ stop # post"] by simp
    then have "stop \<in> set (drop (length lit) (c # ?cs))" by simp
    with True have "findall True lit stop (c # ?cs) \<noteq> []" by (rule findall_hit)
    then show ?thesis by simp
  next
    case False
    then have "findall True lit stop (c # ?cs) = findall True lit stop ?cs"
      by (simp only: findall.simps if_False)
    with Cons.IH show ?thesis by simp
  qed
qed

text \<open>
  Claim C10 (the \<^verbatim>\<open>.m\<close> loader without a match). If the text of the file has no segment
  matching \<^verbatim>\<open>capMatrix (.*?)]\<close>, that is no \<^verbatim>\<open>capMatrix \<close> followed somewhere later by \<^verbatim>\<open>]\<close>,
  then \<open>readin_q3d_matrix_m\<close> raises at its \<^verbatim>\<open>return\<close>, since \<^verbatim>\<open>dfC\<close> was never bound; it
  returns no value at all for such input.
\<close>

theorem readin_m_without_match_raises:
  assumes "fs path = Some t"
    and "\<not> (\<exists>pre mid post. t = pre @ ''capMatrix '' @ mid @ '']'' @ post)"
  shows "readin_q3d_matrix_m read_csv fs path = Inl (UnboundLocalError ''dfC'')"
proof -
  have "findall True ''capMatrix '' CHR '']'' t = []"
  proof (rule ccontr)
    assume "findall True ''capMatrix '' CHR '']'' t \<noteq> []"
    from findall_segment [OF this] assms(2) show False by simp
  qed
  then show ?thesis
    by (simp add: readin_q3d_matrix_m_def read_text_def assms(1) and_then_def)
qed

lemma readin_m_with_match_reads:
  assumes "fs path = Some t" and "t = pre @ ''capMatrix '' @ mid @ '']'' @ post"
  shows "readin_q3d_matrix_m read_csv fs path =
     read_csv (str_strip (str_strip (str_strip (hd (findall True ''capMatrix '' CHR '']'' t))
        (set ''= ['')) (set '']'')) {CHR 0x0A})"
proof -
  have "findall True ''capMatrix '' CHR '']'' (pre @ ''capMatrix '' @ mid @ CHR '']'' # post) \<noteq> []"
    by (rule findall_dotall_segment)
  then have ne: "findall True ''capMatrix '' CHR '']'' t \<noteq> []" unfolding assms(2) by simp
  have id: "and_then m Inr = m" for m :: "error + 'a"
    by (cases m) (simp_all add: and_then_def)
  show ?thesis
    unfolding readin_q3d_matrix_m_def read_text_def assms(1) Let_def
    using ne by (simp add: and_then_def [of "Inr _"] id)
qed

theorem readin_m_without_match_raises_witness:
  "[''m.m'' \<mapsto> ''no matrix here''] ''m.m'' = Some ''no matrix here'' \<and>
   \<not> (\<exists>pre mid post. ''no matrix here'' = pre @ ''capMatrix '' @ mid @ '']'' @ post) \<and>
   readin_q3d_matrix_m (\<lambda>s. Inr (length s)) [''m.m'' \<mapsto> ''no matrix here''] ''m.m'' =
     Inl (UnboundLocalError ''dfC'')"
proof -
  have f: "[''m.m'' \<mapsto> ''no matrix here''] ''m.m'' = Some ''no matrix here''" by simp
  have n: "\<not> (\<exists>pre mid post. ''no matrix here'' = pre @ ''capMatrix '' @ mid @ '']'' @ post)"
  proof
    assume "\<exists>pre mid post. ''no matrix here'' = pre @ ''capMatrix '' @ mid @ '']'' @ post"
    then obtain pre mid post where "''no matrix here'' = pre @ ''capMatrix '' @ mid @ '']'' @ post"
      by blast
    then have "CHR '']'' \<in> set ''no matrix here''"
      by (metis append_Cons in_set_conv_decomp append_assoc append_Nil)
    then show False by simp
  qed
  from readin_m_without_match_raises
    [of "[''m.m'' \<mapsto> ''no matrix here'']" "''m.m''" "''no matrix here''" "\<lambda>s. Inr (length s)", OF f n]
  show ?thesis using f n by blast
qed

section \<open>The quantum-level solver: symmetry and reference level\<close>


lemma traverse_Inr_nth:
  "traverse f xs = Inr ys \<Longrightarrow> length ys = length xs \<and> (\<forall>i < length xs. f (xs ! i) = Inr (ys ! i))"
proof (induction xs arbitrary: ys)
  case Nil
  then show ?case by simp
next
  case (Cons x xs)
  then show ?case by (auto split: sum.splits simp: nth_Cons split: nat.splits)
qed


lemma np_linspace_length: "np_linspace N = Inr charge \<Longrightarrow> length charge = nat N"
  by (auto simp: np_linspace_def split: if_splits)

lemma np_linspace_returns: "0 \<le> N \<Longrightarrow> \<exists>charge. np_linspace N = Inr charge"
  by (simp add: np_linspace_def)

text \<open>With a finite \<open>Ec\<close> every entry of \<open>H\<close> is finite, and \<open>H\<close> is symmetric.\<close>

lemma hamiltonian_finite:
  "hamiltonian (Finite Ec) EJ ng =
     map (\<lambda>i. map (\<lambda>j. Finite (4 * Ec * (nmat i j - ng * np_eye i j)\<^sup>2 + EJ * V i j)) [0..<dim])
       [0..<dim]"
  by (simp add: hamiltonian_def)

lemma np_transpose_table:
  assumes "0 < n"
  shows "np_transpose (map (\<lambda>i. map (\<lambda>j. f i j) [0..<n]) [0..<n]) =
     map (\<lambda>j. map (\<lambda>i. f i j) [0..<n]) [0..<n]"
proof -
  have ne: "map (\<lambda>i. map (\<lambda>j. f i j) [0..<n]) [0..<n] \<noteq> []" using assms by simp
  have hd: "length (hd (map (\<lambda>i. map (\<lambda>j. f i j) [0..<n]) [0..<n])) = n"
    using assms by (simp add: hd_map)
  show ?thesis
    unfolding np_transpose_def hd using ne by (simp add: comp_def cong: map_cong)
qed

lemma hamiltonian_symmetric:
  "np_array_equal (hamiltonian (Finite Ec) EJ ng)
     (np_transpose (np_conj (hamiltonian (Finite Ec) EJ ng)))"
proof -
  let ?f = "\<lambda>i j. Finite (4 * Ec * (nmat i j - ng * np_eye i j)\<^sup>2 + EJ * V i j)"
  have sym: "?f i j = ?f j i" for i j
    by (simp add: nmat_def np_eye_def V_def)
  have c: "np_conj (hamiltonian (Finite Ec) EJ ng) = hamiltonian (Finite Ec) EJ ng"
    by (simp add: np_conj_def)
  have "np_transpose (hamiltonian (Finite Ec) EJ ng) = map (\<lambda>j. map (\<lambda>i. ?f i j) [0..<dim]) [0..<dim]"
    unfolding hamiltonian_finite by (rule np_transpose_table) (simp add: dim_def)
  also have "\<dots> = map (\<lambda>j. map (\<lambda>i. ?f j i) [0..<dim]) [0..<dim]"
    by (subst sym) (rule refl)
  also have "\<dots> = hamiltonian (Finite Ec) EJ ng" by (simp only: hamiltonian_finite)
  finally have t: "np_transpose (hamiltonian (Finite Ec) EJ ng) = hamiltonian (Finite Ec) EJ ng" .
  have "list_all2 (list_all2 f64_eq) (hamiltonian (Finite Ec) EJ ng) (hamiltonian (Finite Ec) EJ ng)"
    by (simp add: hamiltonian_finite list_all2_conv_all_nth)
  then show ?thesis by (simp only: np_array_equal_def c t)
qed

lemma hamiltonian_all_finite:
  "list_all (list_all is_finite) (hamiltonian (Finite Ec) EJ ng)"
  by (simp add: hamiltonian_finite list_all_iff)

text \<open>
  With an infinite or undefined \<open>Ec\<close> the entry of \<open>H\<close> in row 0 and column 1 is \<^verbatim>\<open>nan\<close>:
  there \<^verbatim>\<open>(nmat - ng * np.eye(dim))**2\<close> is zero, and \<^verbatim>\<open>inf * 0\<close> is \<^verbatim>\<open>nan\<close>.
\<close>

lemma hamiltonian_nan:
  assumes "\<not> is_finite Ec"
  shows "hamiltonian Ec EJ ng ! 0 ! Suc 0 = NaN"
proof -
  have d: "0 < dim" "Suc 0 < dim" by (simp_all add: dim_def nmax_def)
  have z: "(nmat 0 (Suc 0) - ng * np_eye 0 (Suc 0))\<^sup>2 = 0" by (simp add: nmat_def np_eye_def)
  have n: "f64_times (f64_times (Finite 4) Ec) (Finite 0) = NaN"
    using assms by (cases Ec) (simp_all add: signed_inf_def)
  have "hamiltonian Ec EJ ng ! 0 ! Suc 0 =
      f64_plus (f64_times (f64_times (Finite 4) Ec) (Finite ((nmat 0 (Suc 0) - ng * np_eye 0 (Suc 0))\<^sup>2)))
        (Finite (EJ * V 0 (Suc 0)))"
    using d by (simp add: hamiltonian_def)
  also have "\<dots> = NaN" by (simp only: z n f64_plus.simps)
  finally show ?thesis .
qed

lemma hamiltonian_not_symmetric:
  assumes "\<not> is_finite Ec"
  shows "\<not> np_array_equal (hamiltonian Ec EJ ng) (np_transpose (np_conj (hamiltonian Ec EJ ng)))"
proof
  let ?H = "hamiltonian Ec EJ ng"
  assume "np_array_equal ?H (np_transpose (np_conj ?H))"
  then have a: "list_all2 (list_all2 f64_eq) ?H (np_transpose (np_conj ?H))"
    by (simp only: np_array_equal_def)
  have l: "0 < length ?H" "Suc 0 < length (?H ! 0)"
    by (simp_all add: hamiltonian_def dim_def nmax_def)
  have "list_all2 f64_eq (?H ! 0) (np_transpose (np_conj ?H) ! 0)"
    by (rule list_all2_nthD [OF a l(1)])
  then have "f64_eq (?H ! 0 ! Suc 0) (np_transpose (np_conj ?H) ! 0 ! Suc 0)"
    by (rule list_all2_nthD [OF _ l(2)])
  then have "f64_eq NaN (np_transpose (np_conj ?H) ! 0 ! Suc 0)"
    by (simp only: hamiltonian_nan [OF assms])
  then show False by simp
qed

lemma sample_levels_cases:
  "sample_levels eig Ec EJ ng =
     (if \<not> is_finite Ec then Inl (ValueError ''Matrix is not Hermitian'')
      else let d = eig (map (map finite_value) (hamiltonian Ec EJ ng)) in
        if length d \<noteq> dim then Inl (LibraryError ''eig'')
        else Inr (map (\<lambda>x. x - sort d ! 0) (sort d)))"
proof (cases "is_finite Ec")
  case True
  then obtain ec where "Ec = Finite ec" by (cases Ec) simp_all
  then show ?thesis
    by (simp add: sample_levels_def Let_def hamiltonian_symmetric hamiltonian_all_finite)
next
  case False
  then show ?thesis
    by (simp add: sample_levels_def Let_def hamiltonian_not_symmetric)
qed

lemma sort_nth_0: "xs \<noteq> [] \<Longrightarrow> sort xs ! 0 = Min (set xs)"
proof -
  assume ne: "xs \<noteq> []"
  then have s: "sort xs \<noteq> []" by (metis length_0_conv length_sort)
  then obtain y ys where ys: "sort xs = y # ys" by (cases "sort xs") auto
  have "sorted (sort xs)" by simp
  then have "\<forall>z \<in> set (sort xs). y \<le> z" by (auto simp: ys)
  moreover have "y \<in> set xs" by (metis list.set_intros(1) set_sort ys)
  ultimately have "Min (set xs) = y"
    by (intro Min_eqI) auto
  then show ?thesis by (simp add: ys)
qed

text \<open>
  The charging energy \<^verbatim>\<open>Ec = e**2 / 2 / C\<close>: finite when the capacitance is not zero; at
  zero, an exception for a Python float and \<^verbatim>\<open>inf\<close> for a \<^verbatim>\<open>numpy.float64\<close>.
\<close>

lemma charging_energy_cases:
  "charging_energy Cq =
     (if num_val Cq \<noteq> 0 then Inr (Finite (e_charge\<^sup>2 / 2 / (num_val Cq * (1 / 10 ^ 15))))
      else case Cq of PyFloat c \<Rightarrow> Inl ZeroDivisionError | NpFloat64 c \<Rightarrow> Inr PosInf)"
  by (cases Cq) (simp_all add: charging_energy_def float_divide_def signed_inf_def e_charge_def)

lemma charging_energy_finite:
  "num_val Cq \<noteq> 0 \<Longrightarrow>
   charging_energy Cq = Inr (Finite (e_charge\<^sup>2 / 2 / (num_val Cq * (1 / 10 ^ 15))))"
  by (simp only: charging_energy_cases simp_thms if_True)


lemma levels_table_cases:
  "levels_table eig Cq IC N =
     and_then (charging_energy Cq) (\<lambda>Ec.
     and_then (np_linspace N) (\<lambda>charge.
     traverse (sample_levels eig Ec (josephson_energy IC)) charge))"
  by (simp add: levels_table_def Let_def)












lemma levels_table_returns:
  assumes "num_val Cq \<noteq> 0" and "0 \<le> N" and "\<forall>H. length (eig H) = dim"
  shows "\<exists>table. levels_table eig Cq IC N = Inr table \<and> length table = nat N"
proof -
  obtain charge where ch: "np_linspace N = Inr charge"
    using np_linspace_returns [OF assms(2)] by blast
  define Ec where "Ec = e_charge\<^sup>2 / 2 / (num_val Cq * (1 / 10 ^ 15))"
  define EJ where "EJ = josephson_energy IC"
  define col where "col = (\<lambda>ng. map (\<lambda>x. x - sort (eig (map (map finite_value) (hamiltonian (Finite Ec) EJ ng))) ! 0)
      (sort (eig (map (map finite_value) (hamiltonian (Finite Ec) EJ ng)))))"
  have ce: "charging_energy Cq = Inr (Finite Ec)"
    unfolding Ec_def by (rule charging_energy_finite [OF assms(1)])
  have "sample_levels eig (Finite Ec) EJ ng = Inr (col ng)" for ng
    using assms(3) by (simp add: sample_levels_cases Let_def col_def)
  then have "traverse (sample_levels eig (Finite Ec) EJ) charge = Inr (map col charge)"
    by (intro traverse_map)
  then have "levels_table eig Cq IC N = Inr (map col charge)"
    by (simp add: levels_table_cases ce ch and_then_def EJ_def)
  then show ?thesis
    by (simp add: np_linspace_length [OF ch])
qed

lemma levels_returns:
  assumes "num_val Cq \<noteq> 0" and "1 \<le> N" and "\<forall>H. length (eig H) = dim"
  shows "\<exists>r. levels_vs_ng_real_units eig Cq IC N = Inr r"
proof -
  from assms(2) have "0 \<le> N" by simp
  from levels_table_returns [OF assms(1) this assms(3)] obtain table
    where t: "levels_table eig Cq IC N = Inr table" "length table = nat N" by blast
  from t(2) assms(2) have "table \<noteq> []" by auto
  then show ?thesis
    by (simp add: levels_vs_ng_real_units_def t(1) and_then_def Let_def)
qed

text \<open>
  Claim C5 (ground-state reference). When the capacitance is not zero, the grid size is
  not negative and the eigenvalue routine returns \<open>dim\<close> values, the level table is built,
  with one column per offset-charge sample. In every table the solver builds, the column
  of a sample is the sorted list of the eigenvalues of that sample's matrix \<open>H\<close>, each
  minus the first of the sorted list, which is the smallest eigenvalue; so level 0 of
  every sample is exactly zero.
\<close>

theorem ground_level_is_zero:
  "(num_val Cq \<noteq> 0 \<and> 0 \<le> N \<and> (\<forall>H. length (eig H) = dim) \<longrightarrow>
      (\<exists>table. levels_table eig Cq IC N = Inr table \<and> length table = nat N)) \<and>
   (levels_table eig Cq IC N = Inr elvls \<longrightarrow>
      (\<exists>charge Ec. np_linspace N = Inr charge \<and> charging_energy Cq = Inr Ec \<and>
         length elvls = length charge \<and>
         (\<forall>i < length charge.
            let H = hamiltonian Ec (josephson_energy IC) (charge ! i);
                sorted_d = sort (eig (map (map finite_value) H))
            in list_all (list_all is_finite) H \<and> length sorted_d = dim \<and>
               sorted_d ! 0 = Min (set sorted_d) \<and>
               elvls ! i = map (\<lambda>x. x - sorted_d ! 0) sorted_d \<and>
               elvls ! i ! 0 = 0)))"
proof (intro conjI impI)
  assume h: "num_val Cq \<noteq> 0 \<and> 0 \<le> N \<and> (\<forall>H. length (eig H) = dim)"
  then show "\<exists>table. levels_table eig Cq IC N = Inr table \<and> length table = nat N"
    by (intro levels_table_returns) simp_all
next
  assume t: "levels_table eig Cq IC N = Inr elvls"
  define EJ where "EJ = josephson_energy IC"
  from t obtain Ec where ec: "charging_energy Cq = Inr Ec"
    by (cases "charging_energy Cq") (simp_all add: levels_table_cases and_then_def)
  from t ec obtain charge where ch: "np_linspace N = Inr charge"
    by (cases "np_linspace N") (simp_all add: levels_table_cases and_then_def)
  from t ec ch have tr: "traverse (sample_levels eig Ec EJ) charge = Inr elvls"
    by (simp add: levels_table_cases and_then_def EJ_def)
  note nth = traverse_Inr_nth [OF tr]
  have "let H = hamiltonian Ec EJ (charge ! i);
            sorted_d = sort (eig (map (map finite_value) H))
        in list_all (list_all is_finite) H \<and> length sorted_d = dim \<and>
           sorted_d ! 0 = Min (set sorted_d) \<and>
           elvls ! i = map (\<lambda>x. x - sorted_d ! 0) sorted_d \<and>
           elvls ! i ! 0 = 0" if i: "i < length charge" for i
  proof -
    let ?d = "eig (map (map finite_value) (hamiltonian Ec EJ (charge ! i)))"
    from nth i have s: "sample_levels eig Ec EJ (charge ! i) = Inr (elvls ! i)" by blast
    then have f: "is_finite Ec" and l: "length ?d = dim"
      and e: "elvls ! i = map (\<lambda>x. x - sort ?d ! 0) (sort ?d)"
      by (auto simp: sample_levels_cases Let_def split: if_splits)
    from f obtain ec where "Ec = Finite ec" by (cases Ec) simp_all
    then have fin: "list_all (list_all is_finite) (hamiltonian Ec EJ (charge ! i))"
      by (simp only: hamiltonian_all_finite)
    have pos: "0 < dim" by (simp add: dim_def)
    with l have ne: "sort ?d \<noteq> []" by (metis length_0_conv length_sort less_numeral_extra(3))
    have m: "sort (sort ?d) ! 0 = Min (set (sort ?d))" by (rule sort_nth_0 [OF ne])
    have m': "sort ?d ! 0 = Min (set (sort ?d))" using m by (simp add: sort_key_id_if_sorted)
    have z: "elvls ! i ! 0 = 0" using l pos by (simp add: e)
    show ?thesis
      unfolding Let_def using fin l m' e z by simp
  qed
  then show "\<exists>charge Ec. np_linspace N = Inr charge \<and> charging_energy Cq = Inr Ec \<and>
         length elvls = length charge \<and>
         (\<forall>i < length charge.
            let H = hamiltonian Ec (josephson_energy IC) (charge ! i);
                sorted_d = sort (eig (map (map finite_value) H))
            in list_all (list_all is_finite) H \<and> length sorted_d = dim \<and>
               sorted_d ! 0 = Min (set sorted_d) \<and>
               elvls ! i = map (\<lambda>x. x - sorted_d ! 0) sorted_d \<and>
               elvls ! i ! 0 = 0)"
    using ch ec nth unfolding EJ_def by blast
qed

theorem ground_level_is_zero_witness:
  "num_val (NpFloat64 65) \<noteq> 0 \<and> (0 :: int) \<le> 3 \<and>
   (\<forall>H. length (diagonal_entries H) = dim) \<and>
   (\<exists>elvls. levels_table diagonal_entries (NpFloat64 65) 30 3 = Inr elvls \<and>
      length elvls = nat 3 \<and>
      (\<exists>charge Ec. np_linspace 3 = Inr charge \<and> charging_energy (NpFloat64 65) = Inr Ec \<and>
         length elvls = length charge \<and>
         (\<forall>i < length charge.
            let H = hamiltonian Ec (josephson_energy 30) (charge ! i);
                sorted_d = sort (diagonal_entries (map (map finite_value) H))
            in list_all (list_all is_finite) H \<and> length sorted_d = dim \<and>
               sorted_d ! 0 = Min (set sorted_d) \<and>
               elvls ! i = map (\<lambda>x. x - sorted_d ! 0) sorted_d \<and>
               elvls ! i ! 0 = 0)))"
proof -
  have h: "num_val (NpFloat64 65) \<noteq> 0 \<and> (0 :: int) \<le> 3 \<and>
      (\<forall>H. length (diagonal_entries H) = dim)"
    by (simp add: diagonal_entries_def)
  from ground_level_is_zero [of "NpFloat64 65" 3 diagonal_entries 30] h
  obtain elvls where e: "levels_table diagonal_entries (NpFloat64 65) 30 3 = Inr elvls"
    "length elvls = nat 3" by blast
  from ground_level_is_zero [of "NpFloat64 65" 3 diagonal_entries 30 elvls] e(1)
  have "\<exists>charge Ec. np_linspace 3 = Inr charge \<and> charging_energy (NpFloat64 65) = Inr Ec \<and>
         length elvls = length charge \<and>
         (\<forall>i < length charge.
            let H = hamiltonian Ec (josephson_energy 30) (charge ! i);
                sorted_d = sort (diagonal_entries (map (map finite_value) H))
            in list_all (list_all is_finite) H \<and> length sorted_d = dim \<and>
               sorted_d ! 0 = Min (set sorted_d) \<and>
               elvls ! i = map (\<lambda>x. x - sorted_d ! 0) sorted_d \<and>
               elvls ! i ! 0 = 0)"
    by (rule mp [OF conjunct2])
  with e h show ?thesis by blast
qed

section \<open>The quantum-level solver: outputs\<close>

lemma constants_positive: "0 < phi0" "0 < hbar" "0 < e_charge" "0 < h_planck"
  by (simp_all add: phi0_def phinot_def hbar_def e_charge_def h_planck_def)

lemma levels_table_ground:
  assumes "levels_table eig Cq IC N = Inr elvls" and "i < length elvls"
  shows "elvls ! i ! 0 = 0"
proof -
  from assms(1) obtain Ec where ec: "charging_energy Cq = Inr Ec"
    by (cases "charging_energy Cq") (simp_all add: levels_table_cases and_then_def)
  from assms(1) ec obtain charge where ch: "np_linspace N = Inr charge"
    by (cases "np_linspace N") (simp_all add: levels_table_cases and_then_def)
  from assms(1) ec ch
  have tr: "traverse (sample_levels eig Ec (josephson_energy IC)) charge = Inr elvls"
    by (simp add: levels_table_cases and_then_def)
  note nth = traverse_Inr_nth [OF tr]
  let ?d = "eig (map (map finite_value) (hamiltonian Ec (josephson_energy IC) (charge ! i)))"
  from nth assms(2) have "sample_levels eig Ec (josephson_energy IC) (charge ! i) = Inr (elvls ! i)"
    by simp
  then have l: "length ?d = dim" and e: "elvls ! i = map (\<lambda>x. x - sort ?d ! 0) (sort ?d)"
    by (auto simp: sample_levels_cases Let_def split: if_splits)
  have "0 < dim" by (simp add: dim_def)
  with l show ?thesis by (simp add: e)
qed

lemma Max_reflected:
  fixes xs :: "real list"
  assumes "xs \<noteq> []" and "0 < h"
  shows "Max (set (map (\<lambda>x. - x / h + c / h) xs)) = (c - Min (set xs)) / h"
proof (rule Max_eqI)
  show "finite (set (map (\<lambda>x. - x / h + c / h) xs))" by simp
next
  fix y
  assume "y \<in> set (map (\<lambda>x. - x / h + c / h) xs)"
  then obtain x where x: "x \<in> set xs" "y = - x / h + c / h" by auto
  then have "Min (set xs) \<le> x" by simp
  then have "(c - x) / h \<le> (c - Min (set xs)) / h"
    using assms(2) by (simp add: divide_le_cancel)
  then show "y \<le> (c - Min (set xs)) / h" by (simp add: x(2) diff_divide_distrib)
next
  have "Min (set xs) \<in> set xs" using assms(1) by (intro Min_in) simp_all
  then have "- Min (set xs) / h + c / h \<in> set (map (\<lambda>x. - x / h + c / h) xs)" by auto
  then show "(c - Min (set xs)) / h \<in> set (map (\<lambda>x. - x / h + c / h) xs)"
    by (simp add: diff_divide_distrib)
qed

text \<open>
  What the solver returns, from the level table: the mean over the samples of level 1,
  in GHz; the mean of level 2 minus twice level 1, in MHz (level 0, which the source
  subtracts twice, is zero); and level 1 at the first sample minus the smallest level
  1 on the grid, in Hz. The last is the spread between the largest and the smallest
  level 1 exactly when level 1 is largest at the first sample.
\<close>

lemma levels_outputs:
  assumes t: "levels_table eig Cq IC N = Inr elvls" and ne: "elvls \<noteq> []"
  shows "\<exists>tphi_ms. levels_vs_ng_real_units eig Cq IC N = Inr
      (np_mean (map (\<lambda>column. column ! 1 / h_planck / 10 ^ 9) elvls),
       np_mean (map (\<lambda>column. 1000 * (column ! 2 / h_planck / 10 ^ 9
                                         - 2 * column ! 1 / h_planck / 10 ^ 9)) elvls),
       (elvls ! 0 ! 1 - Min (set (map (\<lambda>column. column ! 1) elvls))) / h_planck,
       tphi_ms)"
proof -
  let ?level = "\<lambda>k. map (\<lambda>column. column ! k) elvls"
  have 1: "map (\<lambda>x. x / h_planck / 10 ^ 9) (?level 1) =
      map (\<lambda>column. column ! 1 / h_planck / 10 ^ 9) elvls"
    by (simp add: comp_def)
  have 2: "map (\<lambda>i. 1000 * (?level 2 ! i / h_planck / 10 ^ 9
                         - ?level 0 ! i / h_planck / 10 ^ 9
                         - 2 * ?level 1 ! i / h_planck / 10 ^ 9
                         - ?level 0 ! i / h_planck / 10 ^ 9)) [0..<length elvls] =
      map (\<lambda>column. 1000 * (column ! 2 / h_planck / 10 ^ 9
                                - 2 * column ! 1 / h_planck / 10 ^ 9)) elvls"
    by (rule nth_equalityI) (simp_all add: levels_table_ground [OF t])
  have "?level 1 \<noteq> []" using ne by simp
  from Max_reflected [OF this constants_positive(4), of "?level 1 ! 0"]
  have 3: "Max (set (map (\<lambda>x. - x / h_planck + ?level 1 ! 0 / h_planck) (?level 1))) =
      (elvls ! 0 ! 1 - Min (set (?level 1))) / h_planck"
    using ne by (simp add: nth_map)
  show ?thesis
    unfolding levels_vs_ng_real_units_def t and_then_def sum.case Let_def 1 2 3
    using ne by simp
qed

lemma dispersion_peak_to_peak:
  fixes level1 :: "real list"
  assumes "level1 \<noteq> []"
  shows "(level1 ! 0 - Min (set level1)) / h_planck = (Max (set level1) - Min (set level1)) / h_planck
     \<longleftrightarrow> level1 ! 0 = Max (set level1)"
  using constants_positive(4) by simp

section \<open>The reducer: validation, node order and zero ports\<close>

lemma and_then_InrE:
  assumes "and_then m f = Inr y"
  obtains x where "m = Inr x" and "f x = Inr y"
  using assms by (cases m) (simp_all add: and_then_def)

lemma getitem_nonneg:
  "getitem xs i = Inr c \<Longrightarrow> 0 \<le> i \<Longrightarrow> c = xs ! nat i"
  by (simp add: getitem_def wrap_index_def split: if_splits)

lemma getitem2_nonneg:
  "getitem2 m i j = Inr c \<Longrightarrow> 0 \<le> i \<Longrightarrow> 0 \<le> j \<Longrightarrow> c = m ! nat i ! nat j"
  unfolding getitem2_def
  by (erule and_then_InrE) (auto dest: getitem_nonneg)

lemma traverse_Inr_map:
  assumes "traverse f xs = Inr ys" and "\<And>x y. x \<in> set xs \<Longrightarrow> f x = Inr y \<Longrightarrow> y = g x"
  shows "ys = map g xs"
  using assms
proof (induction xs arbitrary: ys)
  case Nil
  then show ?case by simp
next
  case (Cons x xs)
  then show ?case by (auto split: sum.splits)
qed

lemma read_entries:
  assumes "traverse (\<lambda>x. and_then (getitem2 m (a x) (b x)) (\<lambda>c. Inr (- c))) xs = Inr ys"
    and "\<And>x. x \<in> set xs \<Longrightarrow> 0 \<le> a x \<and> 0 \<le> b x"
  shows "ys = map (\<lambda>x. - m ! nat (a x) ! nat (b x)) xs"
proof (rule traverse_Inr_map [OF assms(1)])
  fix x y
  assume x: "x \<in> set xs" and "and_then (getitem2 m (a x) (b x)) (\<lambda>c. Inr (- c)) = Inr y"
  then obtain c where "getitem2 m (a x) (b x) = Inr c" "y = - c"
    by (auto elim: and_then_InrE)
  with assms(2) [OF x] show "y = - m ! nat (a x) ! nat (b x)"
    by (auto dest: getitem2_nonneg)
qed

text \<open>
  What the reducer reads from the matrix, through its own index variables: the
  capacitances of the qubit pads to ground, to each other and to the coupling pads, and
  those between coupling pads.
\<close>

lemma capacitances_reads:
  assumes c: "capacitances capMatrix N Cr CJ = Inr lp"
    and b: "\<forall>p \<in> set (bus_index N capMatrix). 0 \<le> p"
  shows "lp_Cg lp = map (\<lambda>qi. - capMatrix ! nat qi ! nat (ground_index N)) (qubit_index N)"
    and "lp_Cs lp = - capMatrix ! nat (qubit_index N ! 0) ! nat (qubit_index N ! 1)"
    and "lp_Cbus lp = map (\<lambda>qi. map (\<lambda>bj. - capMatrix ! nat qi ! nat bj) (bus_index N capMatrix))
           (qubit_index N)"
    and "lp_Cbusbus lp = map (\<lambda>ii. map (\<lambda>jj.
           if ii \<noteq> jj then - capMatrix ! nat (bus_index N capMatrix ! ii) ! nat (bus_index N capMatrix ! jj)
           else 0) [0..<nat N]) [0..<nat N]"
proof -
  have g: "0 \<le> ground_index N" by (simp add: ground_index_def)
  have q: "\<forall>qi \<in> set (qubit_index N). 0 \<le> qi" using g by (simp add: qubit_index_def)
  have q01: "0 \<le> qubit_index N ! 0" "0 \<le> qubit_index N ! 1" using g by (simp_all add: qubit_index_def)
  have lb: "length (bus_index N capMatrix) = nat N" by (simp add: bus_index_def)
  from c obtain Cg c0 Cbus Cbusbus r where
    1: "traverse (\<lambda>qi. and_then (getitem2 capMatrix qi (ground_index N)) (\<lambda>c. Inr (- c)))
          (qubit_index N) = Inr Cg"
    and 2: "getitem2 capMatrix (qubit_index N ! 0) (qubit_index N ! 1) = Inr c0"
    and 3: "traverse (\<lambda>qi. traverse (\<lambda>bj.
          and_then (getitem2 capMatrix qi bj) (\<lambda>c. Inr (- c))) (bus_index N capMatrix))
          (qubit_index N) = Inr Cbus"
    and 4: "traverse (\<lambda>ii. traverse (\<lambda>jj.
          if ii \<noteq> jj
          then and_then (getitem2 capMatrix (bus_index N capMatrix ! ii) (bus_index N capMatrix ! jj))
                 (\<lambda>c. Inr (- c))
          else Inr 0) [0..<nat N]) [0..<nat N] = Inr Cbusbus"
    and 5: "lp_Cg lp = Cg \<and> lp_Cs lp = - c0 \<and> lp_Cbus lp = Cbus \<and> lp_Cbusbus lp = Cbusbus"
    unfolding capacitances_def Let_def
    by (elim and_then_InrE) auto
  show "lp_Cg lp = map (\<lambda>qi. - capMatrix ! nat qi ! nat (ground_index N)) (qubit_index N)"
    using read_entries [OF 1] q g 5 by simp
  show "lp_Cs lp = - capMatrix ! nat (qubit_index N ! 0) ! nat (qubit_index N ! 1)"
    using getitem2_nonneg [OF 2 q01] 5 by simp
  show "lp_Cbus lp = map (\<lambda>qi. map (\<lambda>bj. - capMatrix ! nat qi ! nat bj) (bus_index N capMatrix))
           (qubit_index N)"
  proof -
    have "Cbus = map (\<lambda>qi. map (\<lambda>bj. - capMatrix ! nat qi ! nat bj) (bus_index N capMatrix))
           (qubit_index N)"
    proof (rule traverse_Inr_map [OF 3])
      fix qi row
      assume qi: "qi \<in> set (qubit_index N)"
        and "traverse (\<lambda>bj. and_then (getitem2 capMatrix qi bj) (\<lambda>c. Inr (- c)))
               (bus_index N capMatrix) = Inr row"
      from read_entries [OF this(2)] q qi b
      show "row = map (\<lambda>bj. - capMatrix ! nat qi ! nat bj) (bus_index N capMatrix)" by simp
    qed
    with 5 show ?thesis by simp
  qed
  show "lp_Cbusbus lp = map (\<lambda>ii. map (\<lambda>jj.
           if ii \<noteq> jj then - capMatrix ! nat (bus_index N capMatrix ! ii) ! nat (bus_index N capMatrix ! jj)
           else 0) [0..<nat N]) [0..<nat N]"
  proof -
    have "Cbusbus = map (\<lambda>ii. map (\<lambda>jj.
           if ii \<noteq> jj then - capMatrix ! nat (bus_index N capMatrix ! ii) ! nat (bus_index N capMatrix ! jj)
           else 0) [0..<nat N]) [0..<nat N]"
    proof (rule traverse_Inr_map [OF 4])
      fix ii row
      assume ii: "ii \<in> set [0..<nat N]"
        and r: "traverse (\<lambda>jj. if ii \<noteq> jj
          then and_then (getitem2 capMatrix (bus_index N capMatrix ! ii) (bus_index N capMatrix ! jj))
                 (\<lambda>c. Inr (- c))
          else Inr 0) [0..<nat N] = Inr row"
      show "row = map (\<lambda>jj.
           if ii \<noteq> jj then - capMatrix ! nat (bus_index N capMatrix ! ii) ! nat (bus_index N capMatrix ! jj)
           else 0) [0..<nat N]"
      proof (rule traverse_Inr_map [OF r])
        fix jj y
        assume jj: "jj \<in> set [0..<nat N]"
          and y: "(if ii \<noteq> jj
            then and_then (getitem2 capMatrix (bus_index N capMatrix ! ii) (bus_index N capMatrix ! jj))
                   (\<lambda>c. Inr (- c))
            else Inr 0) = Inr y"
        have nn: "0 \<le> bus_index N capMatrix ! ii" "0 \<le> bus_index N capMatrix ! jj"
          using b ii jj lb by simp_all
        show "y = (if ii \<noteq> jj
            then - capMatrix ! nat (bus_index N capMatrix ! ii) ! nat (bus_index N capMatrix ! jj)
            else 0)"
        proof (cases "ii = jj")
          case True
          with y show ?thesis by simp
        next
          case False
          with y obtain c where "getitem2 capMatrix (bus_index N capMatrix ! ii) (bus_index N capMatrix ! jj) = Inr c"
            "y = - c" by (auto elim: and_then_InrE)
          with getitem2_nonneg [OF this(1) nn] False show ?thesis by simp
        qed
      qed
    qed
    with 5 show ?thesis by simp
  qed
qed

lemma bus_index_order:
  assumes "1 \<le> N" and "int (length capMatrix) = N + 3"
  shows "bus_index N capMatrix = map int ((nat N + 2) # [0..<nat N - 1])"
proof -
  have "[0..<nat N] = 0 # map Suc [0..<nat N - 1]"
    using assms(1)
    by (metis One_nat_def Suc_pred' map_Suc_upt upt_conv_Cons zero_less_nat_eq
        zero_less_one_class.zero_less_one less_le_trans)
  then have "bus_index N capMatrix =
      (int (length capMatrix) - 1) # map (\<lambda>ii. int (Suc ii) - 1) [0..<nat N - 1]"
    by (simp add: bus_index_def comp_def)
  then show ?thesis using assms by (simp add: comp_def)
qed

text \<open>
  Claim C3, as stated, at one port and the 4 by 4 matrix whose entry in row \<open>i\<close> and
  column \<open>j\<close> is \<open>10 i + j\<close>: the claim puts the readout pad at index 0, the ground at 1
  and the qubit pads at 2 and 3, so the capacitance between the qubit pads would be
  read at row 2, column 3. The reducer takes the ground at 0, the qubit pads at 1 and 2
  and the readout pad at 3, and reads that capacitance at row 1, column 2.
\<close>

theorem node_order_counterexample:
  "\<not> (ground_index 1 = 1 \<and> qubit_index 1 = [2, 3] \<and>
      bus_index 1 [[0, 1, 2, 3], [10, 11, 12, 13], [20, 21, 22, 23], [30, 31, 32, 33]] = [0]) \<and>
   map_sum id lp_Cs
     (capacitances [[0, 1, 2, 3], [10, 11, 12, 13], [20, 21, 22, 23], [30, 31, 32, 33]] 1 [1] 0) =
     Inr (- 12) \<and>
   map_sum id lp_Cg
     (capacitances [[0, 1, 2, 3], [10, 11, 12, 13], [20, 21, 22, 23], [30, 31, 32, 33]] 1 [1] 0) =
     Inr [- 10, - 20] \<and>
   map_sum id lp_Cbus
     (capacitances [[0, 1, 2, 3], [10, 11, 12, 13], [20, 21, 22, 23], [30, 31, 32, 33]] 1 [1] 0) =
     Inr [[- 13], [- 23]] \<and>
   - ([[0, 1, 2, 3], [10, 11, 12, 13], [20, 21, 22, 23], [30, 31, 32, 33 :: real]] ! 2 ! 3) = - 23"
  by code_simp

text \<open>
  Claim C3 as amended (node ordering used by the reducer). The reducer takes its matrix
  of side \<open>N + 3\<close> in the order of its docstring: bus pads, ground, qubit pad 1, qubit
  pad 2, readout pad. For \<open>N \<ge> 1\<close> it reads the ground at index \<open>N - 1\<close>, the two qubit
  pads at \<open>N\<close> and \<open>N + 1\<close>, the readout pad at the last index \<open>N + 2\<close> and the bus pads at
  \<open>0, \<dots>, N - 2\<close>; the coupling pads are taken readout first, then the buses. For
  \<open>N = 0\<close>, with no coupling pad, it reads the ground at index 0 and the qubit pads at 1
  and 2. Whenever the reducer's reading of the matrix succeeds, the capacitances it has
  read are the entries at these indices.
\<close>

theorem node_order:
  assumes "0 \<le> N" and "int (length capMatrix) = N + 3"
    and "capacitances capMatrix N Cr CJ = Inr lp"
  shows "(N = 0 \<longrightarrow>
       ground_index N = 0 \<and> qubit_index N = [1, 2] \<and> bus_index N capMatrix = [] \<and>
       lp_Cg lp = [- capMatrix ! 1 ! 0, - capMatrix ! 2 ! 0] \<and>
       lp_Cs lp = - capMatrix ! 1 ! 2 \<and>
       lp_Cbus lp = [[], []] \<and> lp_Cbusbus lp = []) \<and>
     (1 \<le> N \<longrightarrow>
       (let n = nat N; ground = n - 1; pad1 = n; pad2 = n + 1; readout = n + 2;
            pads = readout # [0..<n - 1]
        in ground_index N = int ground \<and> qubit_index N = [int pad1, int pad2] \<and>
           bus_index N capMatrix = map int pads \<and>
           lp_Cg lp = [- capMatrix ! pad1 ! ground, - capMatrix ! pad2 ! ground] \<and>
           lp_Cs lp = - capMatrix ! pad1 ! pad2 \<and>
           lp_Cbus lp = [map (\<lambda>p. - capMatrix ! pad1 ! p) pads,
                         map (\<lambda>p. - capMatrix ! pad2 ! p) pads] \<and>
           lp_Cbusbus lp = map (\<lambda>ii. map (\<lambda>jj.
               if ii \<noteq> jj then - capMatrix ! (pads ! ii) ! (pads ! jj) else 0) [0..<n]) [0..<n]))"
proof (rule conjI [OF impI impI])
  assume z: "N = 0"
  have g: "ground_index N = 0" and q: "qubit_index N = [1, 2]"
    and b: "bus_index N capMatrix = []"
    using z by (simp_all add: ground_index_def qubit_index_def bus_index_def)
  have nn: "\<forall>p \<in> set (bus_index N capMatrix). 0 \<le> p" by (simp add: b)
  note r = capacitances_reads [OF assms(3) nn, unfolded q g b]
  have e: "[0..<nat N] = []" using z by simp
  show "ground_index N = 0 \<and> qubit_index N = [1, 2] \<and> bus_index N capMatrix = [] \<and>
       lp_Cg lp = [- capMatrix ! 1 ! 0, - capMatrix ! 2 ! 0] \<and>
       lp_Cs lp = - capMatrix ! 1 ! 2 \<and>
       lp_Cbus lp = [[], []] \<and> lp_Cbusbus lp = []"
    using r(1) r(2) r(3) r(4) by (simp add: q g b e)
next
  assume p: "1 \<le> N"
  define n where "n = nat N"
  define pads where "pads = (n + 2) # [0..<n - 1]"
  have n: "1 \<le> n" "N = int n" using p by (simp_all add: n_def)
  have g: "ground_index N = int (n - 1)" using p by (simp add: ground_index_def n_def)
  have q: "qubit_index N = [int n, int (n + 1)]"
    using p by (simp add: qubit_index_def ground_index_def n_def)
  have b: "bus_index N capMatrix = map int pads"
    unfolding pads_def n_def by (rule bus_index_order [OF p assms(2)])
  have nn: "\<forall>p \<in> set (bus_index N capMatrix). 0 \<le> p" by (simp add: b)
  have lp: "length pads = n" using n(1) by (simp add: pads_def)
  note r = capacitances_reads [OF assms(3) nn]
  have s: "nat (1 + int n) = Suc n" "nat (int n + 1) = Suc n" by simp_all
  have 1: "lp_Cg lp = [- capMatrix ! n ! (n - 1), - capMatrix ! (n + 1) ! (n - 1)]"
    using r(1) by (simp add: q g s)
  have 2: "lp_Cs lp = - capMatrix ! n ! (n + 1)"
    using r(2) by (simp add: q s)
  have 3: "lp_Cbus lp = [map (\<lambda>p. - capMatrix ! n ! p) pads, map (\<lambda>p. - capMatrix ! (n + 1) ! p) pads]"
    using r(3) by (simp add: q b comp_def s)
  have 4: "lp_Cbusbus lp = map (\<lambda>ii. map (\<lambda>jj.
               if ii \<noteq> jj then - capMatrix ! (pads ! ii) ! (pads ! jj) else 0) [0..<n]) [0..<n]"
    unfolding r(4) b n_def [symmetric] using lp by (auto simp: nth_map)
  show "let n = nat N; ground = n - 1; pad1 = n; pad2 = n + 1; readout = n + 2;
            pads = readout # [0..<n - 1]
        in ground_index N = int ground \<and> qubit_index N = [int pad1, int pad2] \<and>
           bus_index N capMatrix = map int pads \<and>
           lp_Cg lp = [- capMatrix ! pad1 ! ground, - capMatrix ! pad2 ! ground] \<and>
           lp_Cs lp = - capMatrix ! pad1 ! pad2 \<and>
           lp_Cbus lp = [map (\<lambda>p. - capMatrix ! pad1 ! p) pads,
                         map (\<lambda>p. - capMatrix ! pad2 ! p) pads] \<and>
           lp_Cbusbus lp = map (\<lambda>ii. map (\<lambda>jj.
               if ii \<noteq> jj then - capMatrix ! (pads ! ii) ! (pads ! jj) else 0) [0..<n]) [0..<n]"
    unfolding Let_def n_def [symmetric] pads_def [symmetric]
    using g q b 1 2 3 4 by simp
qed

theorem node_order_witness:
  "(0 :: int) \<le> 2 \<and>
   int (length [[0, 1, 2, 3, 4], [10, 11, 12, 13, 14], [20, 21, 22, 23, 24],
                [30, 31, 32, 33, 34], [40, 41, 42, 43, 44 :: real]]) = 2 + 3 \<and>
   (\<exists>lp. capacitances [[0, 1, 2, 3, 4], [10, 11, 12, 13, 14], [20, 21, 22, 23, 24],
                        [30, 31, 32, 33, 34], [40, 41, 42, 43, 44]] 2 [1, 1] 0 = Inr lp \<and>
      lp_Cg lp = [- 21, - 31] \<and> lp_Cs lp = - 23 \<and>
      lp_Cbus lp = [[- 24, - 20], [- 34, - 30]] \<and> lp_Cbusbus lp = [[0, - 40], [- 4, 0]]) \<and>
   int (length [[0, 1, 2], [10, 11, 12], [20, 21, 22 :: real]]) = 0 + 3 \<and>
   (\<exists>lp. capacitances [[0, 1, 2], [10, 11, 12], [20, 21, 22]] 0 [] 0 = Inr lp \<and>
      lp_Cg lp = [- 10, - 20] \<and> lp_Cs lp = - 12 \<and> lp_Cbus lp = [[], []] \<and> lp_Cbusbus lp = [])"
proof -
  let ?A = "[[0, 1, 2, 3, 4], [10, 11, 12, 13, 14], [20, 21, 22, 23, 24],
             [30, 31, 32, 33, 34], [40, 41, 42, 43, 44 :: real]]"
  let ?B = "[[0, 1, 2], [10, 11, 12], [20, 21, 22 :: real]]"
  have "map_sum id lp_Cs (capacitances ?A 2 [1, 1] 0) = Inr (- 23)" by code_simp
  then obtain lp where lp: "capacitances ?A 2 [1, 1] 0 = Inr lp"
    by (cases "capacitances ?A 2 [1, 1] 0") simp_all
  have "map_sum id lp_Cs (capacitances ?B 0 [] 0) = Inr (- 12)" by code_simp
  then obtain lp0 where lp0: "capacitances ?B 0 [] 0 = Inr lp0"
    by (cases "capacitances ?B 0 [] 0") simp_all
  have a: "(0 :: int) \<le> 2" "int (length ?A) = 2 + 3" "(0 :: int) \<le> 0" "int (length ?B) = 0 + 3"
    by simp_all
  have u: "[0..<2 - Suc 0] = [0]" "[0..<2] = [0, Suc 0]" by (simp_all add: upt_rec)
  from node_order [OF a(1) a(2) lp]
  have 1: "lp_Cg lp = [- 21, - 31] \<and> lp_Cs lp = - 23 \<and>
      lp_Cbus lp = [[- 24, - 20], [- 34, - 30]] \<and> lp_Cbusbus lp = [[0, - 40], [- 4, 0]]"
    by (simp add: Let_def u)
  from node_order [OF a(3) a(4) lp0]
  have 2: "lp_Cg lp0 = [- 10, - 20] \<and> lp_Cs lp0 = - 12 \<and> lp_Cbus lp0 = [[], []] \<and> lp_Cbusbus lp0 = []"
    by simp
  from lp 1 lp0 2 a show ?thesis by blast
qed

text \<open>
  Claim C2 (input validation of the reducer). With a negative \<open>N\<close> the reducer raises
  \<^verbatim>\<open>ValueError('N must positive')\<close>; with \<open>N \<ge> 0\<close> and a matrix whose number of rows is not
  \<open>N + 3\<close> it raises \<^verbatim>\<open>ValueError('Capacitance matrix is not the right size')\<close>; with
  \<open>N \<ge> 0\<close> and exactly \<open>N + 3\<close> rows both checks pass.
\<close>

theorem validation_checks:
  "(N < 0 \<longrightarrow>
      extract_transmon_coupled_Noscillator eig capMatrix Ic CJ N fb fr res_L4_corr g_scale =
        Inl (ValueError ''N must positive'')) \<and>
   (0 \<le> N \<and> int (length capMatrix) \<noteq> N + 3 \<longrightarrow>
      extract_transmon_coupled_Noscillator eig capMatrix Ic CJ N fb fr res_L4_corr g_scale =
        Inl (ValueError ''Capacitance matrix is not the right size'')) \<and>
   (0 \<le> N \<and> int (length capMatrix) = N + 3 \<longrightarrow> error_checks capMatrix N = Inr ())"
  by (simp add: extract_transmon_coupled_Noscillator_def error_checks_def and_then_def)

theorem validation_checks_witness:
  "extract_transmon_coupled_Noscillator (\<lambda>H. map (\<lambda>i. H ! i ! i) [0..<dim])
      [[1, 0, 0], [0, 1, 0], [0, 0, 1]] 1 1 (- 1) (FbNumber 5) 7 None 1 =
     Inl (ValueError ''N must positive'') \<and>
   extract_transmon_coupled_Noscillator (\<lambda>H. map (\<lambda>i. H ! i ! i) [0..<dim])
      [[1, 0, 0], [0, 1, 0], [0, 0, 1]] 1 1 1 (FbNumber 5) 7 None 1 =
     Inl (ValueError ''Capacitance matrix is not the right size'') \<and>
   error_checks [[1, 0, 0, 0], [0, 1, 0, 0], [0, 0, 1, 0], [0, 0, 0, 1]] 1 = Inr ()"
  using validation_checks [of "- 1" "\<lambda>H. map (\<lambda>i. H ! i ! i) [0..<dim]"
      "[[1, 0, 0], [0, 1, 0], [0, 0, 1]]" 1 1 "FbNumber 5" 7 None 1]
    validation_checks [of 1 "\<lambda>H. map (\<lambda>i. H ! i ! i) [0..<dim]"
      "[[1, 0, 0], [0, 1, 0], [0, 0, 1]]" 1 1 "FbNumber 5" 7 None 1]
    validation_checks [of 1 "\<lambda>H. map (\<lambda>i. H ! i ! i) [0..<dim]"
      "[[1, 0, 0, 0], [0, 1, 0, 0], [0, 0, 1, 0], [0, 0, 0, 1]]" 1 1 "FbNumber 5" 7 None 1]
  by simp

text \<open>With no coupling pad the reducer's arrays over the pads are empty.\<close>

lemma zero_ports_wr: "resonator_wr 0 fb fr = Inr []"
  by (simp add: resonator_wr_def)

lemma zero_ports_lines:
  assumes "res_L4_corr = None \<or> res_L4_corr = Some []"
  shows "transmission_lines [] res_L4_corr = Inr ([], [])"
  using assms by (auto simp: transmission_lines_def and_then_def)

lemma getitem_nat: "k < length xs \<Longrightarrow> getitem xs (int k) = Inr (xs ! k)"
  by (simp add: getitem_def valid_index_def wrap_index_def)

lemma getitem2_nat:
  "i < length m \<Longrightarrow> j < length (m ! i) \<Longrightarrow> getitem2 m (int i) (int j) = Inr (m ! i ! j)"
  by (simp add: getitem2_def getitem_nat and_then_def)

lemma zero_ports_capacitances:
  assumes "length capMatrix = 3" and "list_all (\<lambda>row. length row = 3) capMatrix"
    and "capMatrix ! 1 ! 0 + capMatrix ! 2 ! 0 \<noteq> 0"
  shows "capacitances capMatrix 0 [] CJ =
     Inr \<lparr>lp_Cg = [- capMatrix ! 1 ! 0, - capMatrix ! 2 ! 0], lp_Cs = - capMatrix ! 1 ! 2,
          lp_Cbus = [[], []], lp_Cbusbus = [], lp_tCSbus = [], lp_tCqbus = [],
          lp_tCqbusbus = [], lp_bbus = [],
          lp_Cq = - capMatrix ! 1 ! 2 +
            (- capMatrix ! 1 ! 0) * (- capMatrix ! 2 ! 0) /
              (- capMatrix ! 1 ! 0 + - capMatrix ! 2 ! 0) + CJ\<rparr>"
proof -
  have rows: "length (capMatrix ! 1) = 3" "length (capMatrix ! 2) = 3"
    using assms(1,2) by (simp_all add: list_all_length)
  have "getitem2 capMatrix (int 1) (int 0) = Inr (capMatrix ! 1 ! 0)"
    by (rule getitem2_nat) (use assms(1) rows in simp_all)
  moreover have "getitem2 capMatrix (int 2) (int 0) = Inr (capMatrix ! 2 ! 0)"
    by (rule getitem2_nat) (use assms(1) rows in simp_all)
  moreover have "getitem2 capMatrix (int 1) (int 2) = Inr (capMatrix ! 1 ! 2)"
    by (rule getitem2_nat) (use assms(1) rows in simp_all)
  ultimately have r: "getitem2 capMatrix 1 0 = Inr (capMatrix ! 1 ! 0)"
    "getitem2 capMatrix 2 0 = Inr (capMatrix ! 2 ! 0)"
    "getitem2 capMatrix 1 2 = Inr (capMatrix ! 1 ! 2)"
    by simp_all
  have i: "ground_index 0 = 0" "qubit_index 0 = [1, 2]" "bus_index 0 capMatrix = []"
    by (simp_all add: ground_index_def qubit_index_def bus_index_def)
  have d: "- capMatrix ! 1 ! 0 + - capMatrix ! 2 ! 0 \<noteq> 0" using assms(3) by simp
  show ?thesis
    unfolding capacitances_def Let_def i
    using d by (simp add: r and_then_def np_divide_def)
qed

lemma transmon_props_returns:
  assumes "0 < Ic" and "0 < Cq"
  shows "\<exists>r. transmon_props Ic Cq = Inr r"
proof -
  note c = constants_positive
  define LJ where "LJ = phi0 / Ic"
  define EJ where "EJ = phi0\<^sup>2 / LJ / hbar"
  define EC where "EC = e_charge\<^sup>2 / 2 / Cq / hbar"
  have LJ: "0 < LJ" using assms(1) c(1) by (simp add: LJ_def)
  have EJ: "0 < EJ" using LJ c by (simp add: EJ_def)
  have EC: "0 < EC" using assms(2) c by (simp add: EC_def)
  have 1: "py_divide phi0 Ic = Inr LJ" using assms(1) by (simp add: py_divide_def LJ_def)
  have 2: "py_divide (phi0\<^sup>2) LJ = Inr (phi0\<^sup>2 / LJ)" using LJ by (simp add: py_divide_def)
  have 3: "np_divide LJ Cq = Inr (LJ / Cq)" using assms(2) by (simp add: np_divide_def)
  have 4: "np_sqrt (LJ / Cq) = Inr (sqrt (LJ / Cq))"
    using LJ assms(2) by (simp add: np_sqrt_def not_less)
  have 5: "np_divide (e_charge\<^sup>2 / 2) Cq = Inr (e_charge\<^sup>2 / 2 / Cq)"
    using assms(2) by (simp add: np_divide_def)
  have 6: "np_sqrt (LJ * Cq) = Inr (sqrt (LJ * Cq))"
    using mult_pos_pos [OF LJ assms(2)] by (simp add: np_sqrt_def not_less)
  have "0 < LJ * Cq" using LJ assms(2) by (rule mult_pos_pos)
  then have "0 < sqrt (LJ * Cq)" by simp
  then have 7: "np_divide 1 (sqrt (LJ * Cq)) = Inr (1 / sqrt (LJ * Cq))"
    using LJ assms(2) by (simp add: np_divide_def)
  have 8: "np_divide (EJ / 2) EC = Inr (EJ / 2 / EC)" using EC by (simp add: np_divide_def)
  have "0 \<le> EJ / 2 / EC" using EJ EC by simp
  then have 9: "np_power (EJ / 2 / EC) (5 / 4) = Inr ((EJ / 2 / EC) powr (5 / 4))"
    by (simp add: np_power_def not_less)
  have 10: "np_divide (8 * EJ) EC = Inr (8 * EJ / EC)" using EC by (simp add: np_divide_def)
  have "0 \<le> 8 * EJ / EC" using EJ EC by simp
  then have 11: "np_sqrt (8 * EJ / EC) = Inr (sqrt (8 * EJ / EC))"
    by (simp add: np_sqrt_def not_less)
  show ?thesis
    unfolding transmon_props_def 1 2 and_then_def sum.case Let_def
      EJ_def [symmetric] 3 4 5 EC_def [symmetric] 6 7 8 9 10 11
    by simp
qed

text \<open>
  Claim C7 (zero ports). With \<open>N = 0\<close>, a 3 by 3 matrix, no quarter-wave correction (or
  the empty list of them), a positive junction current, a sum of the pad-to-ground
  capacitances that is not zero and a positive total qubit capacitance, and an
  eigenvalue routine that returns \<open>dim\<close> values, the reducer returns a dictionary: no
  exception is raised, the arrays over the coupling pads (\<^verbatim>\<open>gbus\<close>, \<^verbatim>\<open>chi_in_MHz\<close>) are
  empty, and the total \<^verbatim>\<open>T1\<close> is the constant 100.
\<close>

theorem zero_ports:
  assumes "length capMatrix = 3" and "list_all (\<lambda>row. length row = 3) capMatrix"
    and "res_L4_corr = None \<or> res_L4_corr = Some []"
    and "0 < Ic"
    and "capMatrix ! 1 ! 0 + capMatrix ! 2 ! 0 \<noteq> 0"
    and "0 < - capMatrix ! 1 ! 2 +
            (- capMatrix ! 1 ! 0) * (- capMatrix ! 2 ! 0) /
              (- capMatrix ! 1 ! 0 + - capMatrix ! 2 ! 0) + CJ"
    and "\<forall>H. length (eig H) = dim"
  shows "\<exists>r. extract_transmon_coupled_Noscillator eig capMatrix Ic CJ 0 fb fr res_L4_corr g_scale =
       Inr r \<and> ham_T1 r = 100 \<and> ham_gbus r = [] \<and> ham_chi_in_MHz r = []"
proof -
  define Cq where "Cq = - capMatrix ! 1 ! 2 +
            (- capMatrix ! 1 ! 0) * (- capMatrix ! 2 ! 0) /
              (- capMatrix ! 1 ! 0 + - capMatrix ! 2 ! 0) + CJ"
  have Cq: "0 < Cq" using assms(6) by (simp only: Cq_def)
  have a: "error_checks capMatrix 0 = Inr ()" using assms(1) by (simp add: error_checks_def)
  note b = zero_ports_wr [of fb fr] zero_ports_lines [OF assms(3)]
  note d = zero_ports_capacitances [OF assms(1,2,5), of CJ, folded Cq_def]
  from transmon_props_returns [OF assms(4) Cq]
  obtain LJ EJ Zqp EC wq wq0 eps1
    where e: "transmon_props Ic Cq = Inr (LJ, EJ, Zqp, EC, wq, wq0, eps1)"
    by (metis prod_cases7)
  have "num_val (NpFloat64 (Cq / (1 / 10 ^ 15))) \<noteq> 0" using Cq by simp
  from levels_returns [OF this _ assms(7), of 51 "Ic / (1 / 10 ^ 9)"]
  obtain fq alpha disp tphi_ms
    where f: "levels_vs_ng_real_units eig (NpFloat64 (Cq / (1 / 10 ^ 15))) (Ic / (1 / 10 ^ 9)) 51 =
      Inr (fq, alpha, disp, tphi_ms)"
    by (metis prod_cases4 one_le_numeral)
  show ?thesis
    unfolding extract_transmon_coupled_Noscillator_def
    by (simp only: a b d e f and_then_def sum.case prod.case Let_def lumped.select_convs)
      simp
qed

theorem zero_ports_witness:
  "length [[50, - 10, - 20], [- 10, 40, - 30], [- 20, - 30, 60 :: real]] = 3 \<and>
   list_all (\<lambda>row. length row = 3) [[50, - 10, - 20], [- 10, 40, - 30], [- 20, - 30, 60 :: real]] \<and>
   (0 :: real) < 30 \<and>
   (\<forall>H. length (diagonal_entries H) = dim) \<and>
   (\<exists>r. extract_transmon_coupled_Noscillator diagonal_entries
          [[50, - 10, - 20], [- 10, 40, - 30], [- 20, - 30, 60]] 30 2 0 (FbNumber 5) 7 None 1 =
        Inr r \<and> ham_T1 r = 100 \<and> ham_gbus r = [] \<and> ham_chi_in_MHz r = [])"
proof -
  let ?A = "[[50, - 10, - 20], [- 10, 40, - 30], [- 20, - 30, 60 :: real]]"
  have 1: "length ?A = 3" by simp
  have 2: "list_all (\<lambda>row. length row = 3) ?A" by simp
  have 3: "(None :: bool list option) = None \<or> (None :: bool list option) = Some []" by simp
  have 4: "(0 :: real) < 30" by simp
  have 5: "?A ! 1 ! 0 + ?A ! 2 ! 0 \<noteq> 0" by simp
  have 6: "0 < - ?A ! 1 ! 2 + (- ?A ! 1 ! 0) * (- ?A ! 2 ! 0) / (- ?A ! 1 ! 0 + - ?A ! 2 ! 0) + 2"
    by simp
  have 7: "\<forall>H. length (diagonal_entries H) = dim" by (simp add: diagonal_entries_def)
  from zero_ports [OF 1 2 3 4 5 6 7, of "FbNumber 5" 7 1] 1 2 4 7 show ?thesis by blast
qed

end
